theory Spec2Isabelle
  imports Complex_Main "HOL-Library.More_List"
begin

section \<open>Python values and errors\<close>

text \<open>
  Every check of \<^verbatim>\<open>babysnark.py\<close> is an \<^verbatim>\<open>assert\<close>; a failing one raises
  \<^verbatim>\<open>AssertionError\<close> with no message, so the constructor carries the source line of the
  statement that raised. Reading a list or an array past its end raises
  \<^verbatim>\<open>IndexError\<close>. The two remaining constructors belong to the polynomial library.
\<close>

datatype error =
    AssertionError nat
  | IndexError
  | ZeroDivisionError
  | InterpolationError

text \<open>\<^verbatim>\<open>xs[i]\<close> for an index that is never negative.\<close>

definition get :: "'b list \<Rightarrow> nat \<Rightarrow> error + 'b" where
  "get xs i = (if i < length xs then Inr (xs ! i) else Inl IndexError)"

text \<open>\<^verbatim>\<open>[f(i) for i in idxs]\<close>: the comprehension stops at the first element that raises.\<close>

fun comprehension :: "(nat \<Rightarrow> error + 'b) \<Rightarrow> nat list \<Rightarrow> error + 'b list" where
  "comprehension f [] = Inr []"
| "comprehension f (i # idxs) =
     (case f i of
        Inl e \<Rightarrow> Inl e
      | Inr y \<Rightarrow> (case comprehension f idxs of Inl e \<Rightarrow> Inl e | Inr ys \<Rightarrow> Inr (y # ys)))"

text \<open>
  \<^verbatim>\<open>xs[i:]\<close> for a Python integer \<open>i\<close>: a negative start counts from the end and is
  clamped at the front of the list; \<^verbatim>\<open>xs[-0:]\<close> is the whole list.
\<close>

definition slice_from :: "'b list \<Rightarrow> int \<Rightarrow> 'b list" where
  "slice_from xs i =
     (if 0 \<le> i then drop (nat i) xs else drop (length xs - nat (- i)) xs)"

section \<open>Polynomials over the field\<close>

text \<open>
  Modelled from the spec: the polynomial library \<^verbatim>\<open>finitefield.polynomial\<close>
  (\<^verbatim>\<open>polynomialsOver\<close>) is imported by \<^verbatim>\<open>babysnark.py\<close> and is not part of the
  sources at hand. The specification describes a polynomial as the sequence of its
  coefficients, index \<open>i\<close> holding the coefficient of \<open>X^i\<close>, with trailing zero coefficients
  trimmed, and every operation returning this normal form. Field elements are the
  elements of an arbitrary field \<open>'a\<close>; \<^verbatim>\<open>Fp(k)\<close> is \<open>of_nat k\<close>.
\<close>

type_synonym 'a poly = "'a list"

definition Poly :: "'a::field list \<Rightarrow> 'a poly" where
  "Poly cs = strip_while ((=) 0) cs"

abbreviation coeff :: "'a::field list \<Rightarrow> nat \<Rightarrow> 'a" where
  "coeff p i \<equiv> nth_default 0 p i"

text \<open>Modelled from the spec: addition, coefficient by coefficient, the shorter sequence
  padded with zeros.\<close>

fun add_coeffs :: "'a::field list \<Rightarrow> 'a list \<Rightarrow> 'a list" where
  "add_coeffs [] q = q"
| "add_coeffs p [] = p"
| "add_coeffs (a # p) (b # q) = (a + b) # add_coeffs p q"

definition padd :: "'a::field poly \<Rightarrow> 'a poly \<Rightarrow> 'a poly" where
  "padd p q = Poly (add_coeffs p q)"

definition pneg :: "'a::field poly \<Rightarrow> 'a poly" where
  "pneg p = Poly (map uminus p)"

definition psub :: "'a::field poly \<Rightarrow> 'a poly \<Rightarrow> 'a poly" where
  "psub p q = padd p (pneg q)"

text \<open>Modelled from the spec: multiplication of a polynomial by a field element
  (\<^verbatim>\<open>a[k] * Us[k]\<close>).\<close>

definition pscale :: "'a::field \<Rightarrow> 'a poly \<Rightarrow> 'a poly" where
  "pscale c p = Poly (map ((*) c) p)"

text \<open>Modelled from the spec: multiplication is the convolution of the two coefficient
  sequences; here one row of the convolution per coefficient of the left factor.\<close>

fun mul_coeffs :: "'a::field list \<Rightarrow> 'a list \<Rightarrow> 'a list" where
  "mul_coeffs [] q = []"
| "mul_coeffs (a # p) q = add_coeffs (map ((*) a) q) (0 # mul_coeffs p q)"

definition pmul :: "'a::field poly \<Rightarrow> 'a poly \<Rightarrow> 'a poly" where
  "pmul p q = Poly (mul_coeffs p q)"

text \<open>Modelled from the spec: evaluation of a polynomial at a field element
  (\<^verbatim>\<open>Ui(tau)\<close>).\<close>

fun peval :: "'a::field poly \<Rightarrow> 'a \<Rightarrow> 'a" where
  "peval [] x = 0"
| "peval (c # p) x = c + x * peval p x"

text \<open>
  Modelled from the spec: Euclidean division, giving a quotient and a remainder with
  dividend = divisor \<open>\<times>\<close> quotient + remainder and the remainder of smaller degree than the
  divisor. The dividend is consumed from its leading coefficient down: each step shifts
  the running remainder by one power of \<open>X\<close> and cancels its coefficient at the degree of
  the divisor. Division by the zero polynomial is an error.
\<close>

fun divmod_coeffs :: "'a::field list \<Rightarrow> 'a poly \<Rightarrow> 'a poly \<times> 'a poly" where
  "divmod_coeffs [] d = ([], [])"
| "divmod_coeffs (a # p) d =
     (let (q, r) = divmod_coeffs p d;
          r' = Poly (a # r);
          b = coeff r' (length d - 1) / last d
      in (Poly (b # q), psub r' (pscale b d)))"

definition pdivmod :: "'a::field poly \<Rightarrow> 'a poly \<Rightarrow> error + ('a poly \<times> 'a poly)" where
  "pdivmod p d = (if d = [] then Inl ZeroDivisionError else Inr (divmod_coeffs p d))"

text \<open>\<^verbatim>\<open>p / t\<close> is the quotient of the Euclidean division.\<close>

definition pdiv :: "'a::field poly \<Rightarrow> 'a poly \<Rightarrow> error + 'a poly" where
  "pdiv p d = (case pdivmod p d of Inl e \<Rightarrow> Inl e | Inr (q, r) \<Rightarrow> Inr q)"

section \<open>The vanishing polynomial\<close>

text \<open>
  \<^verbatim>\<open>vanishing_poly(S)\<close>, lines 44 to 54: start from the constant polynomial one and
  multiply it, for each \<open>s\<close> of \<open>S\<close> in order, by \<open>X - s\<close> on the right.
\<close>

definition vanishing_poly :: "'a::field list \<Rightarrow> 'a poly" where
  "vanishing_poly S = fold (\<lambda>s p. pmul p (Poly [- s, 1])) S (Poly [1])"

text \<open>
  Modelled from the spec: Lagrange interpolation \<^verbatim>\<open>Poly.interpolate(xs, ys)\<close>, which
  takes \<open>k\<close> distinct points and \<open>k\<close> values and returns the polynomial of degree below \<open>k\<close>
  through them. The specification gives it no result when the points are not distinct or
  the two sequences differ in length: the model fails there. The basis polynomial of a
  point \<open>x\<close> is the product of \<open>X - x'\<close> over the other points, divided by its own value
  at \<open>x\<close>.
\<close>

definition lagrange_basis :: "'a::field list \<Rightarrow> 'a \<Rightarrow> 'a poly" where
  "lagrange_basis xs x =
     (let N = vanishing_poly (remove1 x xs) in pscale (inverse (peval N x)) N)"

definition lagrange :: "'a::field list \<Rightarrow> 'a list \<Rightarrow> 'a poly" where
  "lagrange xs ys =
     fold (\<lambda>(x, y) f. padd f (pscale y (lagrange_basis xs x))) (zip xs ys) (Poly [0])"

definition interpolate :: "'a::field list \<Rightarrow> 'a list \<Rightarrow> error + 'a poly" where
  "interpolate xs ys =
     (if distinct xs \<and> length ys = length xs then Inr (lagrange xs ys)
      else Inl InterpolationError)"

section \<open>The instance: matrix, evaluation points, column polynomials\<close>

text \<open>
  \<open>U\<close> is a two-dimensional array; \<^verbatim>\<open>(m, n) = U.shape\<close> reads its two dimensions and
  \<^verbatim>\<open>U[:,k]\<close> its column \<open>k\<close>.
\<close>

record 'a matrix =
  nrows :: nat
  ncols :: nat
  entry :: "nat \<Rightarrow> nat \<Rightarrow> 'a"

definition column :: "'a matrix \<Rightarrow> nat \<Rightarrow> 'a list" where
  "column U k = map (\<lambda>i. entry U i k) [0..<nrows U]"

text \<open>\<^verbatim>\<open>rs = [Fp(1+i) for i in range(m)]\<close>\<close>

definition roots :: "nat \<Rightarrow> 'a::field list" where
  "roots m = map (\<lambda>i. of_nat (1 + i)) [0..<m]"

text \<open>\<^verbatim>\<open>Us = [Poly.interpolate(rs, U[:,k]) for k in range(n)]\<close>\<close>

definition column_polys :: "'a::field matrix \<Rightarrow> error + 'a poly list" where
  "column_polys U =
     comprehension (\<lambda>k. interpolate (roots (nrows U)) (column U k)) [0..<ncols U]"

text \<open>
  The loops \<^verbatim>\<open>for k in ks: acc += a[k] * Us[k]\<close> of the prover and the verifier.
\<close>

fun accumulate :: "'a::field list \<Rightarrow> 'a poly list \<Rightarrow> nat list \<Rightarrow> 'a poly \<Rightarrow> error + 'a poly" where
  "accumulate a Us [] acc = Inr acc"
| "accumulate a Us (k # ks) acc =
     (case get a k of
        Inl e \<Rightarrow> Inl e
      | Inr ak \<Rightarrow>
          (case get Us k of
             Inl e \<Rightarrow> Inl e
           | Inr Uk \<Rightarrow> accumulate a Us ks (padd acc (pscale ak Uk))))"

text \<open>
  The predicate to prove, \<open>(U a)\<^sup>2 = 1\<close> in every row (line 105 asserts it of the
  generated instance).
\<close>

definition ssp :: "'a::field matrix \<Rightarrow> 'a list \<Rightarrow> bool" where
  "ssp U a =
     list_all (\<lambda>i. (sum_list (map (\<lambda>k. entry U i k * a ! k) [0..<ncols U]))\<^sup>2 = 1)
       [0..<nrows U]"

section \<open>The pairing group\<close>

text \<open>
  Modelled from the spec: the group \<^verbatim>\<open>ssbls12.Group\<close> is imported and not part of
  the sources at hand. The specification names its capability: a generator \<^verbatim>\<open>G\<close>,
  multiplication of a group element by a field element (\<^verbatim>\<open>P * x\<close>), addition of group
  elements, the pairing \<^verbatim>\<open>P.pair(Q)\<close> into the target group, multiplication in the target
  group, and \<^verbatim>\<open>GT\<close>. The operations are a parameter of the model.
\<close>

record ('a, 'g, 't) pairing_group =
  grp_G :: 'g
  grp_GT :: 't
  grp_mul :: "'g \<Rightarrow> 'a \<Rightarrow> 'g"
  grp_add :: "'g \<Rightarrow> 'g \<Rightarrow> 'g"
  grp_pair :: "'g \<Rightarrow> 'g \<Rightarrow> 't"
  gt_mul :: "'t \<Rightarrow> 't \<Rightarrow> 't"

text \<open>\<^verbatim>\<open>sum(terms, G*0)\<close> adds the terms from the left, starting at \<^verbatim>\<open>G*0\<close>.\<close>

definition grp_sum :: "('a::field, 'g, 't) pairing_group \<Rightarrow> 'g list \<Rightarrow> 'g" where
  "grp_sum grp terms = foldl (grp_add grp) (grp_mul grp (grp_G grp) 0) terms"

text \<open>\<^verbatim>\<open>[taus[i] * cs[i] for i in idxs]\<close>\<close>

definition weighted :: "('a::field, 'g, 't) pairing_group \<Rightarrow> 'g list \<Rightarrow> 'a list \<Rightarrow> nat list \<Rightarrow> error + 'g list" where
  "weighted grp taus cs idxs =
     comprehension
       (\<lambda>i. case get taus i of
               Inl e \<Rightarrow> Inl e
             | Inr P \<Rightarrow> (case get cs i of Inl e \<Rightarrow> Inl e | Inr c \<Rightarrow> Inr (grp_mul grp P c)))
       idxs"

text \<open>\<^verbatim>\<open>[bUis[k-n_stmt] * a[k] for k in range(n_stmt, n)]\<close>\<close>

definition blinded :: "('a::field, 'g, 't) pairing_group \<Rightarrow> 'g list \<Rightarrow> 'a list \<Rightarrow> nat \<Rightarrow> nat \<Rightarrow> error + 'g list" where
  "blinded grp bUis a n_stmt n =
     comprehension
       (\<lambda>k. case get bUis (k - n_stmt) of
               Inl e \<Rightarrow> Inl e
             | Inr P \<Rightarrow> (case get a k of Inl e \<Rightarrow> Inl e | Inr ak \<Rightarrow> Inr (grp_mul grp P ak)))
       [n_stmt..<n]"

text \<open>
  A group of this shape to compute with: an element \<open>x G\<close> is written as its scalar \<open>x\<close>
  and an element of the target group as its exponent over \<open>pair G G\<close>, so the pairing
  multiplies scalars and the product in the target group adds exponents.
\<close>

definition scalar_group :: "('a::field, 'a, 'a) pairing_group" where
  "scalar_group =
     \<lparr>grp_G = 1, grp_GT = 1, grp_mul = (\<lambda>P x. P * x), grp_add = (\<lambda>P Q. P + Q),
      grp_pair = (\<lambda>P Q. P * Q), gt_mul = (\<lambda>X Y. X + Y)\<rparr>"

text \<open>
  What the protocol uses of the group: on the multiples of the generator, addition and
  scalar multiplication follow the scalars, and the pairing is bilinear, that is
  \<open>pair (x G) (y G) = pair G G ^ (x y)\<close>. The target group has no power operation in the
  code, so \<open>pair G G ^ z\<close> is written \<open>pair G (z G)\<close>; \<^verbatim>\<open>GT\<close> is \<open>pair G G\<close>.
\<close>

definition pairing_laws :: "('a::field, 'g, 't) pairing_group \<Rightarrow> bool" where
  "pairing_laws grp \<longleftrightarrow>
     (\<forall>x y. grp_add grp (grp_mul grp (grp_G grp) x) (grp_mul grp (grp_G grp) y)
              = grp_mul grp (grp_G grp) (x + y))
   \<and> (\<forall>x y. grp_mul grp (grp_mul grp (grp_G grp) x) y = grp_mul grp (grp_G grp) (x * y))
   \<and> (\<forall>x y. grp_pair grp (grp_mul grp (grp_G grp) x) (grp_mul grp (grp_G grp) y)
              = grp_pair grp (grp_G grp) (grp_mul grp (grp_G grp) (x * y)))
   \<and> (\<forall>x y. gt_mul grp (grp_pair grp (grp_G grp) (grp_mul grp (grp_G grp) x))
                        (grp_pair grp (grp_G grp) (grp_mul grp (grp_G grp) y))
              = grp_pair grp (grp_G grp) (grp_mul grp (grp_G grp) (x + y)))
   \<and> grp_GT grp = grp_pair grp (grp_G grp) (grp_mul grp (grp_G grp) 1)"

section \<open>Module state\<close>

text \<open>
  The module-level names that the three functions read or write: the trapdoor
  \<^verbatim>\<open>tau\<close>, \<^verbatim>\<open>beta\<close>, \<^verbatim>\<open>gamma\<close> (unbound until \<^verbatim>\<open>babysnark_setup\<close> has run), the witness
  \<^verbatim>\<open>a\<close> and the statement length \<^verbatim>\<open>n_stmt\<close> bound at lines 237 to 239, and the state of
  the random number generator, given as the sequence of field elements that
  \<^verbatim>\<open>random_fp\<close> will return and the number of them drawn so far.
\<close>

record 'a globals =
  g_tau :: "'a option"
  g_beta :: "'a option"
  g_gamma :: "'a option"
  g_a :: "'a list"
  g_n_stmt :: nat
  rand_draws :: "nat \<Rightarrow> 'a"
  rand_drawn :: nat

definition random_fp :: "'a globals \<Rightarrow> 'a \<times> 'a globals" where
  "random_fp s = (rand_draws s (rand_drawn s), s\<lparr>rand_drawn := rand_drawn s + 1\<rparr>)"

section \<open>Setup\<close>

text \<open>\<^verbatim>\<open>babysnark_setup(U, n_stmt)\<close>, lines 119 to 140. \<open>n_stmt\<close> is a length.\<close>

definition babysnark_setup ::
  "'a::field globals \<Rightarrow> ('a, 'g, 't) pairing_group \<Rightarrow> 'a matrix \<Rightarrow> nat
     \<Rightarrow> (error + 'g list) \<times> 'a globals" where
  "babysnark_setup s grp U n_stmt =
     (let m = nrows U; n = ncols U in
      if \<not> n_stmt < n then (Inl (AssertionError 121), s)
      else
        (case column_polys U of
           Inl e \<Rightarrow> (Inl e, s)
         | Inr Us \<Rightarrow>
            (let (tau, s1) = random_fp s;
                 s1 = s1\<lparr>g_tau := Some tau\<rparr>;
                 (beta, s2) = random_fp s1;
                 s2 = s2\<lparr>g_beta := Some beta\<rparr>;
                 (gamma, s3) = random_fp s2;
                 s3 = s3\<lparr>g_gamma := Some gamma\<rparr>;
                 G = grp_G grp;
                 CRS = map (\<lambda>i. grp_mul grp G (tau ^ i)) [0..<m + 1]
                       @ [grp_mul grp G gamma, grp_mul grp G (beta * gamma)]
                       @ map (\<lambda>Ui. grp_mul grp G (beta * peval Ui tau)) (drop n_stmt Us)
             in (Inr CRS, s3))))"

section \<open>Prover\<close>

text \<open>
  \<^verbatim>\<open>babysnark_prover(U, n_stmt, CRS, a)\<close>, lines 143 to 194, in two definitions.
  \<open>prover_polys\<close> is lines 151 to 172: the column polynomials, the witness polynomial
  \<open>vw\<close>, the polynomial \<open>v\<close>, \<open>p = v v - 1\<close> and the quotient \<open>h = p / t\<close>; it returns
  \<open>(vw, p, h)\<close>.
\<close>

definition prover_polys ::
  "'a::field matrix \<Rightarrow> nat \<Rightarrow> 'a list \<Rightarrow> error + ('a poly \<times> 'a poly \<times> 'a poly)" where
  "prover_polys U n_stmt a =
     (let m = nrows U; n = ncols U;
          rs = roots m;
          t = vanishing_poly rs
      in case column_polys U of Inl e \<Rightarrow> Inl e | Inr Us \<Rightarrow>
         (case accumulate a Us [n_stmt..<n] (Poly [0]) of Inl e \<Rightarrow> Inl e | Inr vw \<Rightarrow>
         (case accumulate a Us [0..<n_stmt] vw of Inl e \<Rightarrow> Inl e | Inr v \<Rightarrow>
         (let p = psub (pmul v v) (Poly [1]) in
          case pdiv p t of Inl e \<Rightarrow> Inl e | Inr h \<Rightarrow> Inr (vw, p, h)))))"

text \<open>
  The function itself: the two assertions on its arguments, the slices of the CRS, the
  polynomials, the assertions of lines 173 to 175 and the three sums. The three
  \<^verbatim>\<open>print\<close> calls write the proof elements to standard output and are left out.
\<close>

definition babysnark_prover ::
  "('a::field, 'g, 't) pairing_group \<Rightarrow> 'a matrix \<Rightarrow> nat \<Rightarrow> 'g list \<Rightarrow> 'a list
     \<Rightarrow> error + ('g \<times> 'g \<times> 'g)" where
  "babysnark_prover grp U n_stmt CRS a =
     (let m = nrows U; n = ncols U in
      if n \<noteq> length a then Inl (AssertionError 145)
      else if int (length CRS) \<noteq> (int m + 1) + 2 + (int n - int n_stmt)
        then Inl (AssertionError 146)
      else
        (let taus = take (m + 1) CRS;
             bUis = slice_from CRS (- (int n - int n_stmt));
             t = vanishing_poly (roots m)
         in case prover_polys U n_stmt a of Inl e \<Rightarrow> Inl e | Inr (vw, p, h) \<Rightarrow>
              if p \<noteq> pmul t h then Inl (AssertionError 173)
              else if length vw \<noteq> m then Inl (AssertionError 174)
              else if \<not> length h \<le> m then Inl (AssertionError 175)
              else
                (case weighted grp taus h [0..<length h] of Inl e \<Rightarrow> Inl e | Inr Hs \<Rightarrow>
                (case weighted grp taus vw [0..<m] of Inl e \<Rightarrow> Inl e | Inr Vws \<Rightarrow>
                (case blinded grp bUis a n_stmt n of Inl e \<Rightarrow> Inl e | Inr Bws \<Rightarrow>
                   Inr (grp_sum grp Hs, grp_sum grp Bws, grp_sum grp Vws))))))"

section \<open>Verifier\<close>

text \<open>
  \<^verbatim>\<open>babysnark_verifier(U, CRS, a_stmt, pi)\<close>, lines 198 to 232, in two definitions; the
  proof \<^verbatim>\<open>pi\<close> is written \<open>prf\<close>. The body names \<^verbatim>\<open>n_stmt\<close> (lines 206 and 218) and
  \<^verbatim>\<open>a\<close> (line 219), which are neither parameters nor assigned in the function: they are
  the module-level names. \<^verbatim>\<open>gamma\<close> is assigned at line 204 and is therefore local to
  the function. The function writes no module-level name, so it returns its result only.

  \<open>verifier_terms\<close> is lines 203 to 221, which do not mention the proof: the two CRS
  elements \<^verbatim>\<open>gamma\<close> and \<^verbatim>\<open>gammabeta\<close>, the commitment \<open>T\<close> to the vanishing polynomial and
  the commitment \<open>Vs\<close> to the statement polynomial; it returns
  \<open>(gamma, gammabeta, T, Vs)\<close>.
\<close>

definition verifier_terms ::
  "'a::field globals \<Rightarrow> ('a, 'g, 't) pairing_group \<Rightarrow> 'a matrix \<Rightarrow> 'g list
     \<Rightarrow> error + ('g \<times> 'g \<times> 'g \<times> 'g)" where
  "verifier_terms s grp U CRS =
     (let m = nrows U; n = ncols U;
          taus = take (m + 1) CRS
      in case get CRS (m + 1) of Inl e \<Rightarrow> Inl e | Inr gamma \<Rightarrow>
         (case get CRS (m + 2) of Inl e \<Rightarrow> Inl e | Inr gammabeta \<Rightarrow>
         (let bUis = slice_from CRS (- (int n - int (g_n_stmt s)));
              rs = roots m;
              t = vanishing_poly rs
          in case weighted grp taus t [0..<m + 1] of Inl e \<Rightarrow> Inl e | Inr Ts \<Rightarrow>
             (let T = grp_sum grp Ts in
              case column_polys U of Inl e \<Rightarrow> Inl e | Inr Us \<Rightarrow>
              (case accumulate (g_a s) Us [0..<g_n_stmt s] (Poly [0]) of
                 Inl e \<Rightarrow> Inl e
               | Inr vs \<Rightarrow>
                  (case weighted grp taus vs [0..<m] of
                     Inl e \<Rightarrow> Inl e
                   | Inr Vss \<Rightarrow> Inr (gamma, gammabeta, T, grp_sum grp Vss)))))))"

text \<open>The function itself: the terms, \<open>V = Vs + Vw\<close> and the two asserted checks.\<close>

definition babysnark_verifier ::
  "'a::field globals \<Rightarrow> ('a, 'g, 't) pairing_group \<Rightarrow> 'a matrix \<Rightarrow> 'g list \<Rightarrow> 'a list
     \<Rightarrow> 'g \<times> 'g \<times> 'g \<Rightarrow> error + bool" where
  "babysnark_verifier s grp U CRS a_stmt prf =
     (let (H, Bw, Vw) = prf in
      case verifier_terms s grp U CRS of
        Inl e \<Rightarrow> Inl e
      | Inr (gamma, gammabeta, T, Vs) \<Rightarrow>
          (let V = grp_add grp Vs Vw in
           if grp_pair grp Bw gamma \<noteq> grp_pair grp Vw gammabeta
             then Inl (AssertionError 226)
           else if gt_mul grp (grp_pair grp H T) (grp_GT grp) \<noteq> grp_pair grp V V
             then Inl (AssertionError 230)
           else Inr True))"

section \<open>Small instances\<close>

text \<open>
  Concrete inputs over the rationals, with entries \<open>0\<close> and \<open>1\<close> only. \<open>U_short\<close> is the
  one-row matrix \<open>(1 0)\<close>; \<open>U_unit\<close> is the two-by-two identity matrix; \<open>U_ones\<close> is the
  two-by-two matrix of ones; \<open>U_ten\<close> has
  ten rows and six columns, the first column all ones. The random
  generator of \<open>globals0\<close> returns \<open>5, 6, 7, \<dots>\<close>.
\<close>

definition U_short :: "rat matrix" where
  "U_short = \<lparr>nrows = 1, ncols = 2, entry = (\<lambda>i k. [[1, 0]] ! i ! k)\<rparr>"

definition U_unit :: "rat matrix" where
  "U_unit = \<lparr>nrows = 2, ncols = 2, entry = (\<lambda>i k. [[1, 0], [0, 1]] ! i ! k)\<rparr>"

definition U_ones :: "rat matrix" where
  "U_ones = \<lparr>nrows = 2, ncols = 2, entry = (\<lambda>i k. [[1, 1], [1, 1]] ! i ! k)\<rparr>"

definition U_ten :: "rat matrix" where
  "U_ten = \<lparr>nrows = 10, ncols = 6, entry = (\<lambda>i k. if k = 0 then 1 else 0)\<rparr>"

definition globals0 :: "rat globals" where
  "globals0 =
     \<lparr>g_tau = None, g_beta = None, g_gamma = None, g_a = [1, - 1], g_n_stmt = 1,
      rand_draws = (\<lambda>i. of_nat (i + 5)), rand_drawn = 0\<rparr>"

section \<open>Which errors the steps can raise\<close>

lemma get_Inl: "get xs i = Inl e \<Longrightarrow> e = IndexError"
  by (simp add: get_def split: if_splits)

lemma comprehension_Inl:
  "comprehension f idxs = Inl e \<Longrightarrow> \<exists>i \<in> set idxs. f i = Inl e"
  by (induction idxs) (auto split: sum.splits)

lemma comprehension_Inr:
  "(\<And>i. i \<in> set idxs \<Longrightarrow> f i = Inr (g i)) \<Longrightarrow> comprehension f idxs = Inr (map g idxs)"
  by (induction idxs) auto

lemma comprehension_fails:
  assumes "i \<in> set idxs" and "f i = Inl e" and "\<forall>j e'. f j = Inl e' \<longrightarrow> e' = e"
  shows "comprehension f idxs = Inl e"
  using assms(1)
proof (induction idxs)
  case Nil
  then show ?case by simp
next
  case (Cons k ks)
  show ?case
  proof (cases "f k")
    case (Inl e')
    then have "e' = e" using assms(3) by blast
    with Inl show ?thesis by simp
  next
    case (Inr y)
    then have "i \<noteq> k" using assms(2) by auto
    then have "i \<in> set ks" using Cons.prems by simp
    then have "comprehension f ks = Inl e" by (rule Cons.IH)
    with Inr show ?thesis by simp
  qed
qed

lemma accumulate_Inl: "accumulate a Us ks acc = Inl e \<Longrightarrow> e = IndexError"
  by (induction ks arbitrary: acc) (auto split: sum.splits dest: get_Inl)

lemma weighted_Inl: "weighted grp taus cs idxs = Inl e \<Longrightarrow> e = IndexError"
  unfolding weighted_def
  by (auto dest!: comprehension_Inl split: sum.splits dest: get_Inl)

lemma blinded_Inl: "blinded grp bUis a n_stmt n = Inl e \<Longrightarrow> e = IndexError"
  unfolding blinded_def
  by (auto dest!: comprehension_Inl split: sum.splits dest: get_Inl)

lemma column_polys_Inl: "column_polys U = Inl e \<Longrightarrow> e = InterpolationError"
  unfolding column_polys_def interpolate_def
  by (auto dest!: comprehension_Inl split: if_splits)

lemma pdiv_Inl: "pdiv p d = Inl e \<Longrightarrow> e = ZeroDivisionError"
  by (auto simp: pdiv_def pdivmod_def split: if_splits sum.splits prod.splits)

lemma prover_polys_Inl:
  "prover_polys U n_stmt a = Inl e \<Longrightarrow>
   e = IndexError \<or> e = InterpolationError \<or> e = ZeroDivisionError"
  by (auto simp: prover_polys_def Let_def split: sum.splits
      dest: column_polys_Inl accumulate_Inl pdiv_Inl)

lemma length_column [simp]: "length (column U k) = nrows U"
  by (simp add: column_def)

lemma length_roots [simp]: "length (roots m) = m"
  by (simp add: roots_def)

lemma column_polys_Inr:
  "distinct (roots (nrows U) :: 'a::field list) \<Longrightarrow>
   column_polys (U :: 'a matrix) =
     Inr (map (\<lambda>k. lagrange (roots (nrows U)) (column U k)) [0..<ncols U])"
  unfolding column_polys_def
  by (rule comprehension_Inr) (simp add: interpolate_def)

section \<open>Setup rejects an invalid split\<close>

text \<open>
  C8. When \<open>n_stmt \<ge> n\<close>, \<^verbatim>\<open>babysnark_setup\<close> raises at the assertion of line 121 and
  the module state is the one it was called in: no random element has been drawn, no
  trapdoor has been stored and no CRS exists. When \<open>n_stmt < n\<close> that assertion does not
  raise.
\<close>

theorem setup_invalid_split:
  "(ncols U \<le> n_stmt \<longrightarrow>
      babysnark_setup s grp U n_stmt = (Inl (AssertionError 121), s))
   \<and> (n_stmt < ncols U \<longrightarrow>
      fst (babysnark_setup s grp U n_stmt) \<noteq> Inl (AssertionError 121))"
  by (auto simp: babysnark_setup_def Let_def split: sum.splits prod.splits
      dest: column_polys_Inl)

theorem setup_invalid_split_witness:
  "(ncols U_short \<le> 2
      \<and> babysnark_setup globals0 scalar_group U_short 2 = (Inl (AssertionError 121), globals0))
   \<and> (1 < ncols U_short
      \<and> fst (babysnark_setup globals0 scalar_group U_short 1) \<noteq> Inl (AssertionError 121))"
  using setup_invalid_split [where U = U_short and n_stmt = 2 and s = globals0
        and grp = scalar_group]
    setup_invalid_split [where U = U_short and n_stmt = 1 and s = globals0
        and grp = scalar_group]
  by (simp add: U_short_def)

section \<open>The prover rejects a CRS of the wrong length\<close>

text \<open>
  C9. When the length of the CRS differs from \<open>(m + 1) + 2 + (n - n_stmt)\<close>, computed
  over the integers as Python does, \<^verbatim>\<open>babysnark_prover\<close> raises \<^verbatim>\<open>AssertionError\<close> at
  one of its first two statements: at line 146, the check of the CRS, unless the
  witness has not length \<open>n\<close>, which line 145 reports first. Nothing has been computed by
  then. When the length matches, the assertion of line 146 does not raise.
\<close>

theorem prover_malformed_crs:
  "(int (length CRS) \<noteq> (int (nrows U) + 1) + 2 + (int (ncols U) - int n_stmt) \<longrightarrow>
      babysnark_prover grp U n_stmt CRS a =
        (if ncols U \<noteq> length a then Inl (AssertionError 145) else Inl (AssertionError 146)))
   \<and> (int (length CRS) = (int (nrows U) + 1) + 2 + (int (ncols U) - int n_stmt) \<longrightarrow>
      babysnark_prover grp U n_stmt CRS a \<noteq> Inl (AssertionError 146))"
  by (auto simp: babysnark_prover_def Let_def split: sum.splits prod.splits
      dest: prover_polys_Inl weighted_Inl blinded_Inl)

theorem prover_malformed_crs_witness:
  "(int (length [1, 5 :: rat]) \<noteq> (int (nrows U_short) + 1) + 2 + (int (ncols U_short) - int 1)
      \<and> babysnark_prover scalar_group U_short 1 [1, 5] [1, 0] = Inl (AssertionError 146))
   \<and> (int (length [1, 5, 7, 42, 0 :: rat])
        = (int (nrows U_short) + 1) + 2 + (int (ncols U_short) - int 1)
      \<and> babysnark_prover scalar_group U_short 1 [1, 5, 7, 42, 0] [1, 0]
        \<noteq> Inl (AssertionError 146))"
  using prover_malformed_crs [where CRS = "[1, 5]" and U = U_short and n_stmt = 1
        and grp = scalar_group and a = "[1, 0]"]
    prover_malformed_crs [where CRS = "[1, 5, 7, 42, 0]" and U = U_short and n_stmt = 1
        and grp = scalar_group and a = "[1, 0]"]
  by (simp add: U_short_def)

section \<open>Setup when it succeeds\<close>

lemma setup_success:
  assumes "n_stmt < ncols U" and "column_polys U = Inr Us"
  shows "babysnark_setup s grp U n_stmt =
      (Inr (map (\<lambda>i. grp_mul grp (grp_G grp) (rand_draws s (rand_drawn s) ^ i)) [0..<nrows U + 1]
            @ [grp_mul grp (grp_G grp) (rand_draws s (rand_drawn s + 2)),
               grp_mul grp (grp_G grp)
                 (rand_draws s (rand_drawn s + 1) * rand_draws s (rand_drawn s + 2))]
            @ map (\<lambda>Ui. grp_mul grp (grp_G grp)
                     (rand_draws s (rand_drawn s + 1) * peval Ui (rand_draws s (rand_drawn s))))
                (drop n_stmt Us)),
       s\<lparr>rand_drawn := rand_drawn s + 3,
         g_tau := Some (rand_draws s (rand_drawn s)),
         g_beta := Some (rand_draws s (rand_drawn s + 1)),
         g_gamma := Some (rand_draws s (rand_drawn s + 2))\<rparr>)"
  using assms by (simp add: babysnark_setup_def Let_def random_fp_def)

section \<open>Setup keeps the trapdoor in the module state\<close>

text \<open>
  C4, as stated, fails: line 131 declares \<^verbatim>\<open>global tau, beta, gamma\<close>, so the three
  trapdoor scalars are bound at module level when the call returns. On the two-by-two
  identity matrix with \<open>n_stmt = 1\<close>, the names are unbound before the call and hold
  \<open>5\<close>, \<open>6\<close>, \<open>7\<close> after it.
\<close>

theorem setup_retains_trapdoor_example:
  "fst (babysnark_setup globals0 scalar_group U_unit 1) = Inr [1, 5, 25, 7, 42, 24]
   \<and> g_tau globals0 = None \<and> g_beta globals0 = None \<and> g_gamma globals0 = None
   \<and> g_tau (snd (babysnark_setup globals0 scalar_group U_unit 1)) = Some 5
   \<and> g_beta (snd (babysnark_setup globals0 scalar_group U_unit 1)) = Some 6
   \<and> g_gamma (snd (babysnark_setup globals0 scalar_group U_unit 1)) = Some 7"
  by code_simp

text \<open>
  C4, amended. \<^verbatim>\<open>babysnark_setup\<close> returns the CRS alone. When it returns, the module
  state differs from the one it was called in exactly by three draws of the random
  generator and by \<^verbatim>\<open>tau\<close>, \<^verbatim>\<open>beta\<close>, \<^verbatim>\<open>gamma\<close>, which hold the three drawn scalars; when
  it raises, the module state is unchanged.
\<close>

theorem setup_state_change:
  "(babysnark_setup s grp U n_stmt = (Inr CRS, s') \<longrightarrow>
      s' = s\<lparr>rand_drawn := rand_drawn s + 3,
             g_tau := Some (rand_draws s (rand_drawn s)),
             g_beta := Some (rand_draws s (rand_drawn s + 1)),
             g_gamma := Some (rand_draws s (rand_drawn s + 2))\<rparr>)
   \<and> (babysnark_setup s grp U n_stmt = (Inl e, s') \<longrightarrow> s' = s)"
  by (auto simp: babysnark_setup_def Let_def random_fp_def split: sum.splits if_splits)

theorem setup_state_change_witness:
  "babysnark_setup globals0 scalar_group U_unit 1
     = (Inr [1, 5, 25, 7, 42, 24],
        globals0\<lparr>rand_drawn := 3, g_tau := Some 5, g_beta := Some 6, g_gamma := Some 7\<rparr>)
   \<and> babysnark_setup globals0 scalar_group U_unit 2 = (Inl (AssertionError 121), globals0)"
proof -
  obtain r s' where eq: "babysnark_setup globals0 scalar_group U_unit 1 = (r, s')"
    by (cases "babysnark_setup globals0 scalar_group U_unit 1")
  have "fst (babysnark_setup globals0 scalar_group U_unit 1) = Inr [1, 5, 25, 7, 42, 24]"
    by code_simp
  with eq have r: "r = Inr [1, 5, 25, 7, 42, 24]" by simp
  have 1: "babysnark_setup globals0 scalar_group U_unit 1
     = (Inr [1, 5, 25, 7, 42, 24],
        globals0\<lparr>rand_drawn := 3, g_tau := Some 5, g_beta := Some 6, g_gamma := Some 7\<rparr>)"
    using setup_state_change [where s = globals0 and grp = scalar_group and U = U_unit
        and n_stmt = 1 and CRS = "[1, 5, 25, 7, 42, 24]" and s' = s'] eq r
    by (simp add: globals0_def)
  obtain r2 s2 where eq2: "babysnark_setup globals0 scalar_group U_unit 2 = (r2, s2)"
    by (cases "babysnark_setup globals0 scalar_group U_unit 2")
  have "fst (babysnark_setup globals0 scalar_group U_unit 2) = Inl (AssertionError 121)"
    by code_simp
  with eq2 have r2: "r2 = Inl (AssertionError 121)" by simp
  have 2: "babysnark_setup globals0 scalar_group U_unit 2 = (Inl (AssertionError 121), globals0)"
    using setup_state_change [where s = globals0 and grp = scalar_group and U = U_unit
        and n_stmt = 2 and e = "AssertionError 121" and s' = s2] eq2 r2
    by simp
  from 1 2 show ?thesis by simp
qed

section \<open>The verifier rejects by raising\<close>

text \<open>
  C2, as stated, fails: both checks are \<^verbatim>\<open>assert\<close> statements (lines 226 and 230) and
  the only \<^verbatim>\<open>return\<close> is \<^verbatim>\<open>return True\<close>. On the two-by-two identity matrix, with the
  CRS of the trapdoor \<open>5, 6, 7\<close> and the proof \<open>(4, -24, -4)\<close> of the witness \<open>(1, -1)\<close>,
  changing \<open>Bw\<close> makes the first check fail and changing \<open>H\<close> makes the second fail; the
  verifier raises in both cases.
\<close>

theorem verifier_raises_example:
  "verifier_terms globals0 scalar_group U_unit [1, 5, 25, 7, 42, 24] = Inr (7, 42, 12, - 3)
   \<and> grp_pair scalar_group (- 25) 7 \<noteq> grp_pair scalar_group (- 4) (42 :: rat)
   \<and> babysnark_verifier globals0 scalar_group U_unit [1, 5, 25, 7, 42, 24] [1] (4, - 25, - 4)
       = Inl (AssertionError 226)
   \<and> babysnark_verifier globals0 scalar_group U_unit [1, 5, 25, 7, 42, 24] [1] (5, - 24, - 4)
       = Inl (AssertionError 230)"
  by code_simp

text \<open>
  C2, amended. The verifier never returns \<open>False\<close>. Once the terms of lines 203 to 221 are
  computed, it raises \<^verbatim>\<open>AssertionError\<close> at line 226 when the first pairing check fails,
  raises \<^verbatim>\<open>AssertionError\<close> at line 230 when the first holds and the second fails, and
  returns \<open>True\<close> when both hold.
\<close>

theorem verifier_outcome:
  "babysnark_verifier s grp U CRS a_stmt (H, Bw, Vw) \<noteq> Inr False
   \<and> (verifier_terms s grp U CRS = Inr (gamma, gammabeta, T, Vs) \<longrightarrow>
       babysnark_verifier s grp U CRS a_stmt (H, Bw, Vw) =
         (if grp_pair grp Bw gamma \<noteq> grp_pair grp Vw gammabeta then Inl (AssertionError 226)
          else if gt_mul grp (grp_pair grp H T) (grp_GT grp)
                  \<noteq> grp_pair grp (grp_add grp Vs Vw) (grp_add grp Vs Vw)
            then Inl (AssertionError 230)
          else Inr True))"
  by (simp add: babysnark_verifier_def Let_def split: sum.split prod.split)

theorem verifier_outcome_witness:
  "verifier_terms globals0 scalar_group U_unit [1, 5, 25, 7, 42, 24] = Inr (7, 42, 12, - 3)
   \<and> babysnark_verifier globals0 scalar_group U_unit [1, 5, 25, 7, 42, 24] [1] (4, - 24, - 4)
       = Inr True"
proof -
  have h: "verifier_terms globals0 scalar_group U_unit [1, 5, 25, 7, 42, 24]
      = Inr (7, 42, 12, - 3)"
    by code_simp
  show ?thesis
    using h verifier_outcome [where s = globals0 and grp = scalar_group and U = U_unit
        and CRS = "[1, 5, 25, 7, 42, 24]" and gamma = 7 and gammabeta = 42 and T = 12
        and Vs = "- 3" and a_stmt = "[1]" and H = 4 and Bw = "- 24" and Vw = "- 4"]
    by (simp add: scalar_group_def)
qed

section \<open>The verifier reads the module state, not its statement argument\<close>

text \<open>
  C3. The parameter \<^verbatim>\<open>a_stmt\<close> does not occur in the body of \<^verbatim>\<open>babysnark_verifier\<close>;
  line 219 reads \<^verbatim>\<open>a[k]\<close> and line 218 \<^verbatim>\<open>n_stmt\<close>, the module-level names. With the same
  four arguments the verifier accepts when the module-level \<^verbatim>\<open>a\<close> is \<open>(1, -1)\<close> and raises
  when it is \<open>(3, -1)\<close>; and with the module-level \<^verbatim>\<open>a\<close> equal to \<open>(1, -1)\<close> it accepts the
  statement \<open>(3)\<close>, which is not a prefix of the witness, as it accepts \<open>(1)\<close>.
\<close>

theorem verifier_reads_globals:
  "babysnark_verifier globals0 scalar_group U_unit [1, 5, 25, 7, 42, 24] [1] (4, - 24, - 4)
       = Inr True
   \<and> babysnark_verifier (globals0\<lparr>g_a := [3, - 1]\<rparr>) scalar_group U_unit
        [1, 5, 25, 7, 42, 24] [1] (4, - 24, - 4) = Inl (AssertionError 230)
   \<and> babysnark_verifier globals0 scalar_group U_unit [1, 5, 25, 7, 42, 24] [3] (4, - 24, - 4)
       = Inr True"
  by code_simp

section \<open>A short statement polynomial makes the verifier raise IndexError\<close>

lemma weighted_short:
  assumes "length cs < k"
  shows "weighted grp taus cs [0..<k] = Inl IndexError"
  unfolding weighted_def
proof (rule comprehension_fails [where i = "length cs"])
  show "length cs \<in> set [0..<k]" using assms by simp
  show "(case get taus (length cs) of Inl e \<Rightarrow> Inl e
     | Inr P \<Rightarrow> (case get cs (length cs) of Inl e \<Rightarrow> Inl e | Inr c \<Rightarrow> Inr (grp_mul grp P c)))
     = Inl IndexError"
    by (simp add: get_def split: sum.split)
  show "\<forall>j e'. (case get taus j of Inl e \<Rightarrow> Inl e
     | Inr P \<Rightarrow> (case get cs j of Inl e \<Rightarrow> Inl e | Inr c \<Rightarrow> Inr (grp_mul grp P c))) = Inl e'
     \<longrightarrow> e' = IndexError"
    by (simp add: get_def split: sum.split)
qed

text \<open>
  C10. Line 221 reads \<^verbatim>\<open>vs.coefficients[i]\<close> for every \<open>i\<close> below \<open>m\<close>. When the statement
  polynomial \<open>vs\<close>, accumulated from the module-level \<^verbatim>\<open>a\<close> and \<^verbatim>\<open>n_stmt\<close>, has fewer than
  \<open>m\<close> coefficients, the verifier raises \<^verbatim>\<open>IndexError\<close>, whatever the CRS and the proof are.
\<close>

theorem verifier_short_vs:
  assumes "column_polys U = Inr Us"
    and "accumulate (g_a s) Us [0..<g_n_stmt s] (Poly [0]) = Inr vs"
    and "length vs < nrows U"
  shows "babysnark_verifier s grp U CRS a_stmt prf = Inl IndexError"
proof -
  have w: "weighted grp (take (Suc (nrows U)) CRS) vs [0..<nrows U] = Inl IndexError"
    using assms(3) by (rule weighted_short)
  have "verifier_terms s grp U CRS = Inl IndexError"
    unfolding verifier_terms_def Let_def
    by (simp add: assms(1,2) w split: sum.split) (blast dest: get_Inl weighted_Inl)
  then show ?thesis
    by (simp add: babysnark_verifier_def split: prod.split)
qed

theorem verifier_short_vs_witness:
  "column_polys U_unit = Inr [[2, - 1], [- 1, 1]]
   \<and> accumulate (g_a (globals0\<lparr>g_a := [0, 1]\<rparr>)) [[2, - 1], [- 1, 1]]
        [0..<g_n_stmt (globals0\<lparr>g_a := [0, 1]\<rparr>)] (Poly [0]) = Inr []
   \<and> length ([] :: rat list) < nrows U_unit
   \<and> babysnark_verifier (globals0\<lparr>g_a := [0, 1]\<rparr>) scalar_group U_unit
        [1, 5, 25, 7, 42, 24] [0] (4, - 24, - 4) = Inl IndexError"
proof -
  have 1: "column_polys U_unit = Inr [[2, - 1], [- 1, 1]]"
    by code_simp
  have 2: "accumulate (g_a (globals0\<lparr>g_a := [0, 1]\<rparr>)) [[2, - 1], [- 1, 1]]
        [0..<g_n_stmt (globals0\<lparr>g_a := [0, 1]\<rparr>)] (Poly [0]) = Inr []"
    by code_simp
  have 3: "length ([] :: rat list) < nrows U_unit"
    by (simp add: U_unit_def)
  from verifier_short_vs [OF 1 2 3] 1 2 3 show ?thesis by blast
qed

section \<open>The prover after its checks\<close>

lemma weighted_Inr:
  assumes "\<forall>i \<in> set idxs. i < length taus \<and> i < length cs"
  shows "weighted grp taus cs idxs = Inr (map (\<lambda>i. grp_mul grp (taus ! i) (cs ! i)) idxs)"
  unfolding weighted_def
  by (rule comprehension_Inr) (simp add: get_def assms)

lemma blinded_Inr:
  assumes "\<forall>k \<in> set [n_stmt..<n]. k - n_stmt < length bUis \<and> k < length a"
  shows "blinded grp bUis a n_stmt n
     = Inr (map (\<lambda>k. grp_mul grp (bUis ! (k - n_stmt)) (a ! k)) [n_stmt..<n])"
  unfolding blinded_def
  by (rule comprehension_Inr) (use assms in \<open>simp add: get_def\<close>)

lemma accumulate_Inr_bound:
  "accumulate a Us ks acc = Inr r \<Longrightarrow> \<forall>k \<in> set ks. k < length a \<and> k < length Us"
  by (induction ks arbitrary: acc) (auto simp: get_def split: sum.splits if_splits)

lemma prover_polys_Inr:
  assumes "prover_polys U n_stmt a = Inr (vw, p, h)"
  obtains Us v where "column_polys U = Inr Us"
    and "accumulate a Us [n_stmt..<ncols U] (Poly [0]) = Inr vw"
    and "accumulate a Us [0..<n_stmt] vw = Inr v"
    and "p = psub (pmul v v) (Poly [1])"
    and "pdiv p (vanishing_poly (roots (nrows U))) = Inr h"
  using assms unfolding prover_polys_def Let_def
  by (auto split: sum.splits)

lemma prover_polys_n_stmt:
  assumes "prover_polys U n_stmt a = Inr (vw, p, h)"
  shows "n_stmt \<le> length a"
proof -
  from assms obtain Us v where "accumulate a Us [0..<n_stmt] vw = Inr v"
    by (rule prover_polys_Inr)
  from accumulate_Inr_bound [OF this] have *: "\<forall>k<n_stmt. k < length a" by simp
  show ?thesis
  proof (cases n_stmt)
    case 0
    then show ?thesis by simp
  next
    case (Suc j)
    with * have "j < length a" by simp
    with Suc show ?thesis by simp
  qed
qed

lemma prover_after_checks:
  assumes len: "ncols U = length a"
    and crs: "int (length CRS) = (int (nrows U) + 1) + 2 + (int (ncols U) - int n_stmt)"
    and polys: "prover_polys U n_stmt a = Inr (vw, p, h)"
    and div: "p = pmul (vanishing_poly (roots (nrows U))) h"
    and vw: "length vw = nrows U"
    and h: "length h \<le> nrows U"
  shows "babysnark_prover grp U n_stmt CRS a =
     Inr (grp_sum grp (map (\<lambda>i. grp_mul grp (CRS ! i) (h ! i)) [0..<length h]),
          grp_sum grp (map (\<lambda>k. grp_mul grp (CRS ! (nrows U + 3 + (k - n_stmt))) (a ! k))
             [n_stmt..<ncols U]),
          grp_sum grp (map (\<lambda>i. grp_mul grp (CRS ! i) (vw ! i)) [0..<nrows U]))"
proof -
  have le: "n_stmt \<le> ncols U"
    using prover_polys_n_stmt [OF polys] len by simp
  with crs have lc: "length CRS = nrows U + 3 + (ncols U - n_stmt)"
    by linarith
  let ?taus = "take (nrows U + 1) CRS"
  let ?bUis = "slice_from CRS (- (int (ncols U) - int n_stmt))"
  have wh: "weighted grp ?taus h [0..<length h]
      = Inr (map (\<lambda>i. grp_mul grp (CRS ! i) (h ! i)) [0..<length h])"
    using h lc by (subst weighted_Inr) auto
  have wv: "weighted grp ?taus vw [0..<nrows U]
      = Inr (map (\<lambda>i. grp_mul grp (CRS ! i) (vw ! i)) [0..<nrows U])"
    using vw lc by (subst weighted_Inr) auto
  have bl: "blinded grp ?bUis a n_stmt (ncols U)
      = Inr (map (\<lambda>k. grp_mul grp (CRS ! (nrows U + 3 + (k - n_stmt))) (a ! k))
             [n_stmt..<ncols U])"
  proof (cases "n_stmt = ncols U")
    case True
    then show ?thesis by (simp add: blinded_def)
  next
    case False
    with le have lt: "n_stmt < ncols U" by simp
    have "nat (int (ncols U) - int n_stmt) = ncols U - n_stmt"
      by simp
    with lt lc have b: "?bUis = drop (nrows U + 3) CRS"
      by (simp add: slice_from_def)
    show ?thesis
      unfolding b using lc len by (subst blinded_Inr) auto
  qed
  show ?thesis
    unfolding babysnark_prover_def Let_def
    using len crs div vw h wh wv bl by (simp add: polys)
qed

section \<open>Coefficients and values of the polynomial operations\<close>

lemma coeff_Poly [simp]: "coeff (Poly cs) = coeff cs"
  by (simp add: Poly_def)

lemma no_trailing_Poly [simp]: "no_trailing ((=) 0) (Poly cs)"
  by (simp add: Poly_def)

lemma Poly_idem: "no_trailing ((=) 0) p \<Longrightarrow> Poly p = p"
  by (simp add: Poly_def)

lemma Poly_eq_iff: "Poly p = Poly q \<longleftrightarrow> coeff p = coeff q"
  by (simp add: Poly_def nth_default_eq_iff)

lemma normal_eqI:
  assumes "no_trailing ((=) 0) p" and "no_trailing ((=) 0) q" and "\<And>i. coeff p i = coeff q i"
  shows "p = q"
proof -
  have "Poly p = Poly q" unfolding Poly_eq_iff using assms(3) by (simp add: fun_eq_iff)
  then show ?thesis using assms(1,2) by (simp add: Poly_idem)
qed

lemma normal_length_le:
  assumes "no_trailing ((=) 0) p" and "\<And>i. k \<le> i \<Longrightarrow> coeff p i = 0"
  shows "length p \<le> k"
proof (rule ccontr)
  assume "\<not> length p \<le> k"
  then have k: "k \<le> length p - 1" and ne: "p \<noteq> []" by auto
  have "last p = coeff p (length p - 1)"
    using ne by (rule last_conv_nth_default)
  also have "\<dots> = 0" using k by (rule assms(2))
  finally show False using assms(1) ne by (simp add: no_trailing_unfold)
qed

lemma coeff_add_coeffs [simp]: "coeff (add_coeffs p q) i = coeff p i + coeff q i"
  by (induction p q arbitrary: i rule: add_coeffs.induct) (auto simp: nth_default_Cons split: nat.split)

lemma coeff_map_mult [simp]: "coeff (map ((*) c) p) i = c * coeff p i"
  by (simp add: nth_default_map_eq [where dflt' = 0])

lemma coeff_map_uminus [simp]: "coeff (map uminus p) i = - coeff p i"
  by (simp add: nth_default_map_eq [where dflt' = 0])

lemma coeff_padd [simp]: "coeff (padd p q) i = coeff p i + coeff q i"
  by (simp add: padd_def)

lemma coeff_pscale [simp]: "coeff (pscale c p) i = c * coeff p i"
  by (simp add: pscale_def)

lemma coeff_pneg [simp]: "coeff (pneg p) i = - coeff p i"
  by (simp add: pneg_def)

lemma coeff_psub [simp]: "coeff (psub p q) i = coeff p i - coeff q i"
  by (simp add: psub_def)

lemma coeff_mul_coeffs_Cons:
  "coeff (mul_coeffs (a # p) q) i = a * coeff q i + coeff (0 # mul_coeffs p q) i"
  by simp

lemma coeff_mul_coeffs_cong:
  "(\<And>i. coeff q i = coeff q' i) \<Longrightarrow> coeff (mul_coeffs p q) i = coeff (mul_coeffs p q') i"
  by (induction p arbitrary: i) (auto simp: nth_default_Cons split: nat.split)

lemma coeff_mul_coeffs_right:
  "coeff (mul_coeffs d (b # q)) i = b * coeff d i + coeff (0 # mul_coeffs d q) i"
proof (induction d arbitrary: i)
  case Nil
  then show ?case by (simp add: nth_default_Cons split: nat.split)
next
  case (Cons a d)
  show ?case
  proof (cases i)
    case 0
    then show ?thesis by simp
  next
    case (Suc j)
    then show ?thesis using Cons.IH [of j] by (simp add: algebra_simps)
  qed
qed

lemma no_trailing_ops [simp]:
  "no_trailing ((=) 0) (padd p q)" "no_trailing ((=) 0) (pscale c p)"
  "no_trailing ((=) 0) (pneg p)" "no_trailing ((=) 0) (psub p q)"
  "no_trailing ((=) 0) (pmul p q)"
  by (simp_all add: padd_def pscale_def pneg_def psub_def pmul_def)

section \<open>Evaluation\<close>

lemma peval_zeros: "\<forall>c \<in> set p. c = 0 \<Longrightarrow> peval p x = 0"
  by (induction p) auto

lemma peval_append: "peval (p @ q) x = peval p x + x ^ length p * peval q x"
  by (induction p) (auto simp: algebra_simps)

lemma peval_Poly [simp]: "peval (Poly p) x = peval p x"
proof -
  obtain ys zs where "strip_while ((=) 0) p = ys" and z: "\<forall>c \<in> set zs. 0 = c" and "p = ys @ zs"
    by (rule split_strip_while_append)
  then have "peval p x = peval (Poly p) x + x ^ length ys * peval zs x"
    by (simp add: Poly_def peval_append)
  moreover have "peval zs x = 0" using z by (intro peval_zeros) auto
  ultimately show ?thesis by simp
qed

lemma peval_add_coeffs [simp]: "peval (add_coeffs p q) x = peval p x + peval q x"
  by (induction p q rule: add_coeffs.induct) (auto simp: algebra_simps)

lemma peval_map_mult [simp]: "peval (map ((*) c) p) x = c * peval p x"
  by (induction p) (auto simp: algebra_simps)

lemma peval_map_uminus [simp]: "peval (map uminus p) x = - peval p x"
  by (induction p) (auto simp: algebra_simps)

lemma peval_mul_coeffs [simp]: "peval (mul_coeffs p q) x = peval p x * peval q x"
  by (induction p) (auto simp: algebra_simps)

lemma peval_padd [simp]: "peval (padd p q) x = peval p x + peval q x"
  by (simp add: padd_def)

lemma peval_pscale [simp]: "peval (pscale c p) x = c * peval p x"
  by (simp add: pscale_def)

lemma peval_psub [simp]: "peval (psub p q) x = peval p x - peval q x"
  by (simp add: psub_def pneg_def)

lemma peval_pmul [simp]: "peval (pmul p q) x = peval p x * peval q x"
  by (simp add: pmul_def)

lemma peval_vanishing_poly: "peval (vanishing_poly S) x = prod_list (map (\<lambda>s. x - s) S)"
proof -
  have "peval (fold (\<lambda>s p. pmul p (Poly [- s, 1])) S p0) x
      = peval p0 x * prod_list (map (\<lambda>s. x - s) S)" for p0
    by (induction S arbitrary: p0) (auto simp: algebra_simps)
  then show ?thesis by (simp add: vanishing_poly_def)
qed

lemma peval_vanishing_poly_root: "s \<in> set S \<Longrightarrow> peval (vanishing_poly S) s = 0"
  by (auto simp: peval_vanishing_poly prod_list_zero_iff)

section \<open>Euclidean division\<close>

lemma coeff_last: "d \<noteq> [] \<Longrightarrow> coeff d (length d - 1) = last d"
  using last_conv_nth_default [of d 0] by simp

lemma coeff_mul_coeffs_Nil [simp]: "coeff (mul_coeffs d []) i = 0"
  by (induction d arbitrary: i) (auto simp: nth_default_Cons split: nat.split)

lemma divmod_coeffs_contract:
  assumes d: "d \<noteq> []" "last d \<noteq> 0"
    and "divmod_coeffs p d = (q, r)"
  shows "no_trailing ((=) 0) q \<and> no_trailing ((=) 0) r \<and> length r < length d
     \<and> (\<forall>i. coeff p i = coeff (mul_coeffs d q) i + coeff r i)"
  using assms(3)
proof (induction p arbitrary: q r)
  case Nil
  then show ?case using d by auto
next
  case (Cons a p)
  obtain q0 r0 where qr0: "divmod_coeffs p d = (q0, r0)"
    by (cases "divmod_coeffs p d")
  note IH = Cons.IH [OF qr0]
  define r' where "r' = Poly (a # r0)"
  define b where "b = coeff r' (length d - 1) / last d"
  have q: "q = Poly (b # q0)" and r: "r = psub r' (pscale b d)"
    using Cons.prems qr0 by (simp_all add: Let_def r'_def b_def)
  have nq: "no_trailing ((=) 0) q" and nr: "no_trailing ((=) 0) r"
    by (simp_all add: q r)
  have cr: "coeff r i = coeff (a # r0) i - b * coeff d i" for i
    by (simp add: r r'_def)
  have top: "coeff r i = 0" if "length d - 1 \<le> i" for i
  proof (cases "i = length d - 1")
    case True
    have "b * last d = coeff (a # r0) (length d - 1)"
      using d by (simp add: b_def r'_def)
    moreover have "coeff d (length d - 1) = last d"
      using d(1) by (rule coeff_last)
    ultimately show ?thesis unfolding True cr by simp
  next
    case False
    with that have "length d \<le> i" by simp
    moreover have "length (a # r0) \<le> i" using IH \<open>length d \<le> i\<close> by simp
    ultimately show ?thesis
      by (simp only: cr nth_default_beyond) simp
  qed
  have "length r \<le> length d - 1"
    using nr top by (rule normal_length_le)
  then have lr: "length r < length d" using d by (cases d) simp_all
  have eq: "coeff (a # p) i = coeff (mul_coeffs d q) i + coeff r i" for i
  proof -
    have "coeff (mul_coeffs d q) i = coeff (mul_coeffs d (b # q0)) i"
      by (rule coeff_mul_coeffs_cong) (simp add: q)
    also have "\<dots> = b * coeff d i + coeff (0 # mul_coeffs d q0) i"
      by (rule coeff_mul_coeffs_right)
    finally show ?thesis
      using IH by (cases i) (simp_all add: cr)
  qed
  from nq nr lr eq show ?case by blast
qed

section \<open>Lengths\<close>

lemma length_add_coeffs [simp]: "length (add_coeffs p q) = max (length p) (length q)"
  by (induction p q rule: add_coeffs.induct) auto

lemma length_mul_coeffs:
  "p \<noteq> [] \<Longrightarrow> q \<noteq> [] \<Longrightarrow> length (mul_coeffs p q) = length p + length q - 1"
proof (induction p)
  case Nil
  then show ?case by simp
next
  case (Cons a p)
  then show ?case by (cases "p = []"; cases q) (auto simp: max_def)
qed

lemma length_Poly_le: "length (Poly p) \<le> length p"
  by (simp add: Poly_def length_strip_while_le)

lemma last_mul_coeffs:
  "p \<noteq> [] \<Longrightarrow> q \<noteq> [] \<Longrightarrow> last (mul_coeffs p q) = last p * last q"
proof (induction p)
  case Nil
  then show ?case by simp
next
  case (Cons a p)
  show ?case
  proof (cases "p = []")
    case True
    have "add_coeffs xs [0] = xs" if "xs \<noteq> []" for xs :: "'a list"
      using that by (cases xs; cases "tl xs") simp_all
    then have "add_coeffs (map ((*) a) q) [0] = map ((*) a) q"
      using Cons.prems(2) by simp
    then show ?thesis using True Cons.prems(2) by (simp add: last_map)
  next
    case False
    have ne: "mul_coeffs (a # p) q \<noteq> []"
      using Cons.prems(2) by (cases q) simp_all
    have len: "length (mul_coeffs (a # p) q) = length p + length q"
      using length_mul_coeffs [OF _ Cons.prems(2), of "a # p"] Cons.prems(2)
      by (cases q) simp_all
    have len': "length (mul_coeffs p q) = length p + length q - 1"
      using False Cons.prems(2) by (rule length_mul_coeffs)
    have nep: "mul_coeffs p q \<noteq> []"
      using len' False Cons.prems(2) by (cases p; cases q) auto
    have "last (mul_coeffs (a # p) q) = coeff (mul_coeffs (a # p) q) (length p + length q - 1)"
      using last_conv_nth_default [OF ne, of 0] len by simp
    also have "\<dots> = a * coeff q (length p + length q - 1)
        + coeff (0 # mul_coeffs p q) (length p + length q - 1)"
      by simp
    also have "coeff q (length p + length q - 1) = 0"
      using False by (intro nth_default_beyond) (cases p, simp_all)
    also have "coeff (0 # mul_coeffs p q) (length p + length q - 1)
        = coeff (mul_coeffs p q) (length (mul_coeffs p q) - 1)"
      using False Cons.prems(2) len' by (cases p; cases q) simp_all
    also have "\<dots> = last (mul_coeffs p q)"
      using nep by (rule coeff_last)
    also have "\<dots> = last p * last q"
      using False Cons.prems(2) by (rule Cons.IH)
    finally show ?thesis using False by simp
  qed
qed

lemma pmul_normal:
  assumes "p \<noteq> []" "q \<noteq> []" "last p \<noteq> 0" "last q \<noteq> 0"
  shows "pmul p q = mul_coeffs p q"
    and "length (pmul p q) = length p + length q - 1"
    and "last (pmul p q) = last p * last q"
proof -
  have ne: "mul_coeffs p q \<noteq> []"
    using length_mul_coeffs [OF assms(1,2)] assms(1,2) by (cases p; cases q) auto
  have "last (mul_coeffs p q) \<noteq> 0"
    using assms by (simp add: last_mul_coeffs)
  then have "no_trailing ((=) 0) (mul_coeffs p q)"
    using ne by (simp add: no_trailing_unfold)
  then show 1: "pmul p q = mul_coeffs p q"
    by (simp add: pmul_def Poly_idem)
  show "length (pmul p q) = length p + length q - 1"
    unfolding 1 using assms(1,2) by (rule length_mul_coeffs)
  show "last (pmul p q) = last p * last q"
    unfolding 1 using assms(1,2) by (rule last_mul_coeffs)
qed

section \<open>Shape of the vanishing polynomial\<close>

lemma Poly_linear [simp]: "Poly [c, 1] = [c, 1]" and Poly_one [simp]: "Poly [1] = [1]"
  by (simp_all add: Poly_def)

lemma vanishing_poly_snoc:
  "vanishing_poly (S @ [s]) = pmul (vanishing_poly S) [- s, 1]"
  by (simp add: vanishing_poly_def)

lemma vanishing_poly_shape:
  "vanishing_poly S \<noteq> [] \<and> last (vanishing_poly S) = 1
     \<and> length (vanishing_poly S) = length S + 1"
proof (induction S rule: rev_induct)
  case Nil
  then show ?case by (simp add: vanishing_poly_def)
next
  case (snoc s S)
  let ?p = "vanishing_poly S"
  have ne: "?p \<noteq> []" and l: "last ?p \<noteq> 0" using snoc by simp_all
  have q: "[- s, 1] \<noteq> []" "last [- s, 1] \<noteq> 0" by simp_all
  have "length (pmul ?p [- s, 1]) = length S + 2"
    using pmul_normal(2) [OF ne q(1) l q(2)] snoc by simp
  moreover have "last (pmul ?p [- s, 1]) = 1"
    using pmul_normal(3) [OF ne q(1) l q(2)] snoc by simp
  ultimately show ?case
    unfolding vanishing_poly_snoc by (cases "pmul ?p [- s, 1]") simp_all
qed

section \<open>A polynomial with more roots than coefficients is zero\<close>

lemma linear_factor:
  "\<exists>s. length s = length p - 1
     \<and> (\<forall>y. peval p y = (y - x) * peval s y + peval p x)
     \<and> ((\<forall>c \<in> set s. c = 0) \<longrightarrow> (\<forall>c \<in> set (tl p). c = 0))"
proof (induction p)
  case Nil
  show ?case by (rule exI [where x = "[]"]) simp
next
  case (Cons a p)
  then obtain s where s: "length s = length p - 1"
    "\<And>y. peval p y = (y - x) * peval s y + peval p x"
    "(\<forall>c \<in> set s. c = 0) \<longrightarrow> (\<forall>c \<in> set (tl p). c = 0)"
    by blast
  show ?case
  proof (cases p)
    case Nil
    show ?thesis by (rule exI [where x = "[]"]) (simp add: Nil)
  next
    case (Cons c p')
    let ?s = "peval p x # s"
    have 1: "length ?s = length (a # p) - 1" using s(1) Cons by simp
    have 2: "peval (a # p) y = (y - x) * peval ?s y + peval (a # p) x" for y
    proof -
      have "peval (a # p) y = a + y * ((y - x) * peval s y + peval p x)"
        using s(2) [of y] by simp
      also have "\<dots> = (y - x) * peval ?s y + peval (a # p) x"
        by (simp add: algebra_simps)
      finally show ?thesis .
    qed
    have 3: "\<forall>c \<in> set (tl (a # p)). c = 0" if "\<forall>c \<in> set ?s. c = 0"
    proof -
      from that have z: "peval p x = 0" and "\<forall>c \<in> set s. c = 0" by simp_all
      with s(3) have t: "\<forall>c \<in> set p'. c = 0" using Cons by simp
      then have "peval p' x = 0" by (rule peval_zeros)
      with z have "c = 0" using Cons by simp
      with t show ?thesis using Cons by simp
    qed
    from 1 2 3 show ?thesis by blast
  qed
qed

lemma roots_bound:
  "distinct xs \<Longrightarrow> length p \<le> length xs \<Longrightarrow> \<forall>x \<in> set xs. peval p x = 0
     \<Longrightarrow> \<forall>c \<in> set p. c = (0 :: 'a :: field)"
proof (induction xs arbitrary: p)
  case Nil
  then show ?case by simp
next
  case (Cons x xs)
  obtain s where s: "length s = length p - 1"
    "\<And>y. peval p y = (y - x) * peval s y + peval p x"
    "(\<forall>c \<in> set s. c = 0) \<longrightarrow> (\<forall>c \<in> set (tl p). c = 0)"
    using linear_factor [of p x] by blast
  have px: "peval p x = 0" using Cons.prems(3) by simp
  have "peval s y = 0" if "y \<in> set xs" for y
  proof -
    have "y \<noteq> x" using that Cons.prems(1) by auto
    moreover have "(y - x) * peval s y = 0"
      using s(2) [of y] px Cons.prems(3) that by simp
    ultimately show ?thesis by simp
  qed
  moreover have "length s \<le> length xs" using s(1) Cons.prems(2) by simp
  moreover have "distinct xs" using Cons.prems(1) by simp
  ultimately have "\<forall>c \<in> set s. c = 0" by (intro Cons.IH) auto
  with s(3) have t: "\<forall>c \<in> set (tl p). c = 0" by blast
  show ?case
  proof (cases p)
    case Nil
    then show ?thesis by simp
  next
    case (Cons c p')
    with t have t': "\<forall>c \<in> set p'. c = 0" by simp
    then have "peval p' x = 0" by (rule peval_zeros)
    with px Cons have "c = 0" by simp
    with t' Cons show ?thesis by simp
  qed
qed

lemma normal_zero:
  assumes "no_trailing ((=) 0) p" and "\<forall>c \<in> set p. c = (0 :: 'a :: field)"
  shows "p = []"
proof (rule ccontr)
  assume "p \<noteq> []"
  then have "last p \<in> set p" by simp
  with assms(2) have "last p = 0" by blast
  with assms(1) \<open>p \<noteq> []\<close> show False by (simp add: no_trailing_unfold)
qed

section \<open>Lagrange interpolation\<close>

lemma peval_lagrange_basis:
  assumes "distinct xs" and "x \<in> set xs" and "y \<in> set xs"
  shows "peval (lagrange_basis xs x) y = (if y = x then 1 else 0)"
proof (cases "y = x")
  case True
  have "x \<notin> set (remove1 x xs)" using assms(1) by simp
  then have "prod_list (map (\<lambda>s. x - s) (remove1 x xs)) \<noteq> 0"
    by (auto simp: prod_list_zero_iff)
  then show ?thesis using True
    by (simp add: lagrange_basis_def Let_def peval_vanishing_poly)
next
  case False
  then have "y \<in> set (remove1 x xs)" using assms(3) by simp
  then have "peval (vanishing_poly (remove1 x xs)) y = 0"
    by (rule peval_vanishing_poly_root)
  then show ?thesis using False by (simp add: lagrange_basis_def Let_def)
qed

lemma peval_fold_lagrange:
  "peval (fold (\<lambda>(x, y) f. padd f (pscale y (B x))) zs f0) z
     = peval f0 z + sum_list (map (\<lambda>(x, y). y * peval (B x) z) zs)"
  by (induction zs arbitrary: f0) (auto simp: algebra_simps)

lemma sum_list_indicator:
  assumes "length xs = length ys"
  shows "(z \<notin> set xs \<longrightarrow> sum_list (map (\<lambda>(x, y). y * (if z = x then 1 else 0)) (zip xs ys)) = (0 :: 'a :: field))
     \<and> (distinct xs \<longrightarrow> (\<forall>i < length xs. z = xs ! i \<longrightarrow>
          sum_list (map (\<lambda>(x, y). y * (if z = x then 1 else 0)) (zip xs ys)) = ys ! i))"
  using assms
proof (induction xs ys rule: list_induct2)
  case Nil
  then show ?case by simp
next
  case (Cons x xs y ys)
  show ?case
  proof (intro conjI impI allI)
    assume "z \<notin> set (x # xs)"
    then show "sum_list (map (\<lambda>(x, y). y * (if z = x then 1 else 0)) (zip (x # xs) (y # ys))) = 0"
      using Cons.IH by simp
  next
    fix i
    assume d: "distinct (x # xs)" and i: "i < length (x # xs)" and z: "z = (x # xs) ! i"
    show "sum_list (map (\<lambda>(x, y). y * (if z = x then 1 else 0)) (zip (x # xs) (y # ys)))
        = (y # ys) ! i"
    proof (cases i)
      case 0
      with z d have "z = x" "z \<notin> set xs" by simp_all
      then show ?thesis using Cons.IH 0 by simp
    next
      case (Suc j)
      with z i d have "z = xs ! j" "j < length xs" "z \<noteq> x" by auto
      then show ?thesis using Cons.IH d Suc by simp
    qed
  qed
qed

lemma peval_lagrange:
  assumes "distinct xs" and "length ys = length xs" and "i < length xs"
  shows "peval (lagrange xs ys) (xs ! i) = ys ! i"
proof -
  let ?z = "xs ! i"
  have z: "?z \<in> set xs" using assms(3) by simp
  have "peval (lagrange xs ys) ?z
      = sum_list (map (\<lambda>(x, y). y * peval (lagrange_basis xs x) ?z) (zip xs ys))"
    by (simp add: lagrange_def peval_fold_lagrange)
  also have "\<dots> = sum_list (map (\<lambda>(x, y). y * (if ?z = x then 1 else 0)) (zip xs ys))"
  proof (rule arg_cong [where f = sum_list], rule map_cong [OF refl])
    fix p assume "p \<in> set (zip xs ys)"
    then have "fst p \<in> set xs"
      using set_zip_leftD [of "fst p" "snd p" xs ys] by simp
    then show "(case p of (x, y) \<Rightarrow> y * peval (lagrange_basis xs x) ?z)
        = (case p of (x, y) \<Rightarrow> y * (if ?z = x then 1 else 0))"
      using peval_lagrange_basis [OF assms(1) _ z, of "fst p"] by (cases p) simp
  qed
  also have "\<dots> = ys ! i"
    using sum_list_indicator [of xs ys ?z] assms by simp
  finally show ?thesis .
qed

lemma length_padd_le: "length (padd p q) \<le> max (length p) (length q)"
  unfolding padd_def using length_Poly_le [of "add_coeffs p q"] by simp

lemma length_pscale_le: "length (pscale c p) \<le> length p"
  unfolding pscale_def using length_Poly_le [of "map ((*) c) p"] by simp

lemma length_lagrange_basis:
  assumes "x \<in> set xs"
  shows "length (lagrange_basis xs x) \<le> length xs"
proof -
  have "length (remove1 x xs) = length xs - 1"
    using assms by (simp add: length_remove1)
  moreover have "0 < length xs"
    using assms by (cases xs) auto
  ultimately have "length (vanishing_poly (remove1 x xs)) = length xs"
    using vanishing_poly_shape [of "remove1 x xs"] by simp
  then show ?thesis
    using length_pscale_le [of _ "vanishing_poly (remove1 x xs)"]
    by (simp add: lagrange_basis_def Let_def)
qed

lemma length_fold_lagrange:
  assumes "\<forall>(x, y) \<in> set zs. length (B x) \<le> n" and "length f0 \<le> n"
  shows "length (fold (\<lambda>(x, y) f. padd f (pscale y (B x))) zs f0) \<le> n"
  using assms
proof (induction zs arbitrary: f0)
  case Nil
  then show ?case by simp
next
  case (Cons z zs)
  obtain x y where z: "z = (x, y)" by (cases z)
  have "length (pscale y (B x)) \<le> n"
    using length_pscale_le [of y "B x"] Cons.prems(1) z by auto
  then have "length (padd f0 (pscale y (B x))) \<le> n"
    using length_padd_le [of f0 "pscale y (B x)"] Cons.prems(2) by simp
  then show ?case using Cons.IH [of "padd f0 (pscale y (B x))"] Cons.prems(1) z by simp
qed

lemma Poly_zero [simp]: "Poly [0] = []"
  by (simp add: Poly_def strip_while_def)

lemma length_lagrange: "length (lagrange xs ys) \<le> length xs"
  unfolding lagrange_def
proof (rule length_fold_lagrange)
  show "\<forall>(x, y) \<in> set (zip xs ys). length (lagrange_basis xs x) \<le> length xs"
    by (auto dest: set_zip_leftD intro: length_lagrange_basis)
  show "length (Poly [0]) \<le> length xs" by simp
qed

section \<open>The polynomials of the prover\<close>

lemma peval_cong:
  assumes "\<And>i. coeff p i = coeff q i"
  shows "peval p x = peval q x"
proof -
  have "Poly p = Poly q" unfolding Poly_eq_iff using assms by (simp add: fun_eq_iff)
  then have "peval (Poly p) x = peval (Poly q) x" by simp
  then show ?thesis by simp
qed

lemma accumulate_Inr:
  "\<forall>k \<in> set ks. k < length a \<and> k < length Us \<Longrightarrow> \<exists>r. accumulate a Us ks acc = Inr r"
  by (induction ks arbitrary: acc) (auto simp: get_def)

lemma peval_accumulate:
  "accumulate a Us ks acc = Inr r \<Longrightarrow>
   peval r x = peval acc x + sum_list (map (\<lambda>k. a ! k * peval (Us ! k) x) ks)"
proof (induction ks arbitrary: acc)
  case Nil
  then show ?case by simp
next
  case (Cons k ks)
  from Cons.prems have k: "k < length a" "k < length Us"
    and r: "accumulate a Us ks (padd acc (pscale (a ! k) (Us ! k))) = Inr r"
    by (auto simp: get_def split: if_splits)
  show ?case using Cons.IH [OF r] by (simp add: algebra_simps)
qed

lemma length_accumulate:
  "accumulate a Us ks acc = Inr r \<Longrightarrow> \<forall>k \<in> set ks. length (Us ! k) \<le> n \<Longrightarrow> length acc \<le> n
     \<Longrightarrow> length r \<le> n"
proof (induction ks arbitrary: acc)
  case Nil
  then show ?case by simp
next
  case (Cons k ks)
  from Cons.prems(1) have r: "accumulate a Us ks (padd acc (pscale (a ! k) (Us ! k))) = Inr r"
    by (auto simp: get_def split: if_splits)
  have "length (pscale (a ! k) (Us ! k)) \<le> n"
    using length_pscale_le [of "a ! k" "Us ! k"] Cons.prems(2) by simp
  then have "length (padd acc (pscale (a ! k) (Us ! k))) \<le> n"
    using length_padd_le [of acc "pscale (a ! k) (Us ! k)"] Cons.prems(3) by simp
  then show ?case using Cons.IH [OF r] Cons.prems(2) by simp
qed

lemma no_trailing_accumulate:
  "accumulate a Us ks acc = Inr r \<Longrightarrow> no_trailing ((=) 0) acc \<Longrightarrow> no_trailing ((=) 0) r"
proof (induction ks arbitrary: acc)
  case Nil
  then show ?case by simp
next
  case (Cons k ks)
  from Cons.prems(1) have r: "accumulate a Us ks (padd acc (pscale (a ! k) (Us ! k))) = Inr r"
    by (auto simp: get_def split: if_splits)
  show ?case by (rule Cons.IH [OF r]) (rule no_trailing_ops)
qed

lemma roots_nth: "i < m \<Longrightarrow> roots m ! i = of_nat (1 + i)"
  by (simp add: roots_def)

lemma column_nth: "i < nrows U \<Longrightarrow> column U k ! i = entry U i k"
  by (simp add: column_def)

lemma column_polys_distinct:
  assumes "column_polys (U :: 'a :: field matrix) = Inr Us"
  shows "Us = map (\<lambda>k. lagrange (roots (nrows U)) (column U k)) [0..<ncols U]
     \<and> (0 < ncols U \<longrightarrow> distinct (roots (nrows U) :: 'a :: field list))"
proof -
  have d: "distinct (roots (nrows U) :: 'a list)" if "0 < ncols U"
  proof (rule ccontr)
    assume nd: "\<not> distinct (roots (nrows U) :: 'a list)"
    have "comprehension (\<lambda>k. interpolate (roots (nrows U)) (column U k)) [0..<ncols U]
        = Inl InterpolationError"
    proof (rule comprehension_fails [where i = 0])
      show "0 \<in> set [0..<ncols U]" using that by simp
      show "interpolate (roots (nrows U)) (column U 0) = Inl InterpolationError"
        using nd by (simp add: interpolate_def)
      show "\<forall>j e'. interpolate (roots (nrows U)) (column U j) = Inl e' \<longrightarrow> e' = InterpolationError"
        by (simp add: interpolate_def)
    qed
    with assms show False by (simp add: column_polys_def)
  qed
  have "Us = map (\<lambda>k. lagrange (roots (nrows U)) (column U k)) [0..<ncols U]"
  proof (cases "0 < ncols U")
    case True
    then show ?thesis using column_polys_Inr [OF d] assms by simp
  next
    case False
    then show ?thesis using assms by (simp add: column_polys_def)
  qed
  with d show ?thesis by blast
qed

section \<open>The constraint and the division\<close>

lemma ssp_iff:
  "ssp U a \<longleftrightarrow>
     (\<forall>i < nrows U. (sum_list (map (\<lambda>k. entry U i k * a ! k) [0..<ncols U]))\<^sup>2 = 1)"
  by (auto simp: ssp_def list_all_iff)

lemma prover_polys_value:
  assumes polys: "prover_polys (U :: 'a :: field matrix) n_stmt a = Inr (vw, p, h)"
    and len: "ncols U = length a"
    and i: "i < nrows U"
  shows "peval p (roots (nrows U) ! i)
     = (sum_list (map (\<lambda>k. entry U i k * a ! k) [0..<ncols U]))\<^sup>2 - 1"
proof -
  let ?x = "roots (nrows U) ! i :: 'a"
  from polys obtain Us v where Us: "column_polys U = Inr Us"
    and vw: "accumulate a Us [n_stmt..<ncols U] (Poly [0]) = Inr vw"
    and v: "accumulate a Us [0..<n_stmt] vw = Inr v"
    and p: "p = psub (pmul v v) (Poly [1])"
    by (rule prover_polys_Inr)
  have le: "n_stmt \<le> ncols U"
    using prover_polys_n_stmt [OF polys] len by simp
  from column_polys_distinct [OF Us]
  have Us_eq: "Us = map (\<lambda>k. lagrange (roots (nrows U)) (column U k)) [0..<ncols U]"
    and d: "0 < ncols U \<longrightarrow> distinct (roots (nrows U) :: 'a list)"
    by simp_all
  have tm: "a ! k * peval (Us ! k) ?x = entry U i k * a ! k" if "k < ncols U" for k
  proof -
    from that d have dd: "distinct (roots (nrows U) :: 'a list)" by simp
    have "peval (lagrange (roots (nrows U)) (column U k)) ?x = column U k ! i"
      using dd i by (intro peval_lagrange) simp_all
    then show ?thesis using that i by (simp add: Us_eq column_nth)
  qed
  have "peval v ?x = sum_list (map (\<lambda>k. a ! k * peval (Us ! k) ?x) [n_stmt..<ncols U])
      + sum_list (map (\<lambda>k. a ! k * peval (Us ! k) ?x) [0..<n_stmt])"
    using peval_accumulate [OF v, of ?x] peval_accumulate [OF vw, of ?x] by simp
  also have "\<dots> = sum_list (map (\<lambda>k. a ! k * peval (Us ! k) ?x) ([0..<n_stmt] @ [n_stmt..<ncols U]))"
    by simp
  also have "[0..<n_stmt] @ [n_stmt..<ncols U] = [0..<ncols U]"
    using le upt_add_eq_append [of 0 n_stmt "ncols U - n_stmt"] by simp
  also have "sum_list (map (\<lambda>k. a ! k * peval (Us ! k) ?x) [0..<ncols U])
      = sum_list (map (\<lambda>k. entry U i k * a ! k) [0..<ncols U])"
    by (rule arg_cong [where f = sum_list], rule map_cong [OF refl]) (simp add: tm)
  finally show ?thesis by (simp add: p power2_eq_square)
qed

lemma prover_polys_sem:
  assumes polys: "prover_polys (U :: 'a :: field matrix) n_stmt a = Inr (vw, p, h)"
    and len: "ncols U = length a"
  shows "ssp U a \<longleftrightarrow> (\<forall>x \<in> set (roots (nrows U)). peval p x = 0)"
proof -
  have "(\<forall>x \<in> set (roots (nrows U) :: 'a list). peval p x = 0)
      \<longleftrightarrow> (\<forall>i < nrows U. peval p (roots (nrows U) ! i) = 0)"
    by (simp add: all_set_conv_all_nth)
  also have "\<dots> \<longleftrightarrow> ssp U a"
    unfolding ssp_iff using prover_polys_value [OF polys len] by simp
  finally show ?thesis by simp
qed

lemma division_exact:
  fixes p :: "'a :: field list"
  assumes dm: "divmod_coeffs p (vanishing_poly xs) = (h, r)"
    and np: "no_trailing ((=) 0) p"
  shows "(p = pmul (vanishing_poly xs) h \<longleftrightarrow> r = [])"
    and "r = [] \<Longrightarrow> \<forall>x \<in> set xs. peval p x = 0"
    and "distinct xs \<Longrightarrow> \<forall>x \<in> set xs. peval p x = 0 \<Longrightarrow> r = []"
proof -
  let ?t = "vanishing_poly xs"
  have t: "?t \<noteq> []" "last ?t \<noteq> 0" "length ?t = length xs + 1"
    using vanishing_poly_shape [of xs] by simp_all
  from divmod_coeffs_contract [OF t(1,2) dm]
  have nh: "no_trailing ((=) 0) h" and nr: "no_trailing ((=) 0) r"
    and lr: "length r < length ?t"
    and c: "\<And>i. coeff p i = coeff (mul_coeffs ?t h) i + coeff r i"
    by simp_all
  have ev: "peval p x = peval ?t x * peval h x + peval r x" for x
  proof -
    have "peval p x = peval (add_coeffs (mul_coeffs ?t h) r) x"
      by (rule peval_cong) (simp add: c)
    then show ?thesis by simp
  qed
  show "p = pmul ?t h \<longleftrightarrow> r = []"
  proof
    assume "p = pmul ?t h"
    then have "coeff p i = coeff (mul_coeffs ?t h) i" for i
      by (simp add: pmul_def)
    with c have "coeff r i = 0" for i by simp
    then have "length r \<le> 0" using nr by (intro normal_length_le) simp_all
    then show "r = []" by simp
  next
    assume "r = []"
    with c have "coeff p i = coeff (pmul ?t h) i" for i
      by (simp add: pmul_def)
    with np show "p = pmul ?t h" by (intro normal_eqI) simp_all
  qed
  show "\<forall>x \<in> set xs. peval p x = 0" if "r = []"
    using that ev by (simp add: peval_vanishing_poly_root)
  show "r = []" if d: "distinct xs" and z: "\<forall>x \<in> set xs. peval p x = 0"
  proof -
    have "\<forall>x \<in> set xs. peval r x = 0"
      using z ev by (simp add: peval_vanishing_poly_root)
    moreover have "length r \<le> length xs" using lr t(3) by simp
    ultimately have "\<forall>c \<in> set r. c = 0" using d by (intro roots_bound)
    with nr show ?thesis by (rule normal_zero)
  qed
qed

lemma vanishing_poly_ne [simp]: "vanishing_poly S \<noteq> []"
  using vanishing_poly_shape [of S] by simp

lemma prover_polys_divmod:
  assumes "prover_polys U n_stmt a = Inr (vw, p, h)"
  shows "\<exists>r. divmod_coeffs p (vanishing_poly (roots (nrows U))) = (h, r)
     \<and> pdivmod p (vanishing_poly (roots (nrows U))) = Inr (h, r)
     \<and> no_trailing ((=) 0) p"
proof -
  let ?t = "vanishing_poly (roots (nrows U))"
  from assms obtain Us v where p: "p = psub (pmul v v) (Poly [1])"
    and h: "pdiv p ?t = Inr h"
    by (rule prover_polys_Inr)
  have t: "?t \<noteq> []" by simp
  obtain q r where qr: "divmod_coeffs p ?t = (q, r)"
    by (cases "divmod_coeffs p ?t")
  with h t have "q = h" by (simp add: pdiv_def pdivmod_def)
  with qr t show ?thesis by (auto simp: pdivmod_def p)
qed

lemma prover_polys_success:
  assumes d: "distinct (roots (nrows U) :: 'a :: field list)"
    and len: "ncols U = length a"
    and le: "n_stmt \<le> ncols U"
  shows "\<exists>vw p h. prover_polys (U :: 'a matrix) n_stmt a = Inr (vw, p, h)"
proof -
  let ?Us = "map (\<lambda>k. lagrange (roots (nrows U)) (column U k)) [0..<ncols U]"
  let ?t = "vanishing_poly (roots (nrows U)) :: 'a list"
  have Us: "column_polys U = Inr ?Us" using d by (rule column_polys_Inr)
  obtain vw where vw: "accumulate a ?Us [n_stmt..<ncols U] (Poly [0]) = Inr vw"
    using accumulate_Inr [of "[n_stmt..<ncols U]" a ?Us "Poly [0]"] len by auto
  obtain v where v: "accumulate a ?Us [0..<n_stmt] vw = Inr v"
    using accumulate_Inr [of "[0..<n_stmt]" a ?Us vw] len le by auto
  have t: "?t \<noteq> []" by simp
  obtain h r where "divmod_coeffs (psub (pmul v v) (Poly [1])) ?t = (h, r)"
    by (cases "divmod_coeffs (psub (pmul v v) (Poly [1])) ?t")
  with t have "pdiv (psub (pmul v v) (Poly [1])) ?t = Inr h"
    by (simp add: pdiv_def pdivmod_def)
  then show ?thesis
    unfolding prover_polys_def Let_def using Us vw v by simp
qed

lemma prover_Inr:
  assumes "babysnark_prover grp U n_stmt CRS a = Inr prf"
  shows "ncols U = length a \<and> (\<exists>vw p h. prover_polys U n_stmt a = Inr (vw, p, h)
     \<and> p = pmul (vanishing_poly (roots (nrows U))) h)"
  using assms unfolding babysnark_prover_def Let_def
  by (auto split: if_splits sum.splits prod.splits)

lemma prover_checked:
  assumes "ncols U = length a"
    and "int (length CRS) = (int (nrows U) + 1) + 2 + (int (ncols U) - int n_stmt)"
    and "prover_polys U n_stmt a = Inr (vw, p, h)"
  shows "(p \<noteq> pmul (vanishing_poly (roots (nrows U))) h \<longrightarrow>
            babysnark_prover grp U n_stmt CRS a = Inl (AssertionError 173))
     \<and> (p = pmul (vanishing_poly (roots (nrows U))) h \<longrightarrow>
            babysnark_prover grp U n_stmt CRS a \<noteq> Inl (AssertionError 173))"
  using assms unfolding babysnark_prover_def Let_def
  by (auto split: sum.splits dest: weighted_Inl blinded_Inl)

section \<open>The prover refuses an unsatisfied instance\<close>

text \<open>
  C5. For a witness that does not satisfy \<open>(U a)\<^sup>2 = 1\<close> the prover returns no proof,
  whatever its other arguments are. When its arguments pass the checks of lines 145 and
  146, \<open>n_stmt \<le> n\<close> and the evaluation points \<open>1, \<dots>, m\<close> are distinct in the field, the
  prover reaches the division of \<open>p = v v - 1\<close> by \<open>t\<close>; the remainder is not zero exactly
  when the witness does not satisfy the constraint, and then the prover raises at the
  assertion of line 173; for a satisfying witness the remainder is zero, \<open>p = t h\<close>, and
  that assertion does not raise.
\<close>

theorem prover_unsatisfied_constraint:
  fixes U :: "'a :: field matrix"
  shows "(\<not> ssp U a \<longrightarrow> (\<exists>e. babysnark_prover grp U n_stmt CRS a = Inl e))
   \<and> (ncols U = length a
        \<and> int (length CRS) = (int (nrows U) + 1) + 2 + (int (ncols U) - int n_stmt)
        \<and> n_stmt \<le> ncols U \<and> distinct (roots (nrows U) :: 'a list) \<longrightarrow>
      (\<exists>vw p h r. prover_polys U n_stmt a = Inr (vw, p, h)
         \<and> pdivmod p (vanishing_poly (roots (nrows U))) = Inr (h, r)
         \<and> (r \<noteq> [] \<longleftrightarrow> \<not> ssp U a)
         \<and> (\<not> ssp U a \<longrightarrow> babysnark_prover grp U n_stmt CRS a = Inl (AssertionError 173))
         \<and> (ssp U a \<longrightarrow> p = pmul (vanishing_poly (roots (nrows U))) h
               \<and> babysnark_prover grp U n_stmt CRS a \<noteq> Inl (AssertionError 173))))"
proof (intro conjI impI)
  let ?t = "vanishing_poly (roots (nrows U)) :: 'a list"
  show "\<exists>e. babysnark_prover grp U n_stmt CRS a = Inl e" if ns: "\<not> ssp U a"
  proof (cases "babysnark_prover grp U n_stmt CRS a")
    case (Inl e)
    then show ?thesis by blast
  next
    case (Inr res)
    from prover_Inr [OF Inr] obtain vw p h where len: "ncols U = length a"
      and polys: "prover_polys U n_stmt a = Inr (vw, p, h)" and eq: "p = pmul ?t h"
      by blast
    from prover_polys_divmod [OF polys] obtain r where dm: "divmod_coeffs p ?t = (h, r)"
      and np: "no_trailing ((=) 0) p" by blast
    from division_exact(1) [OF dm np] eq have "r = []" by simp
    from division_exact(2) [OF dm np this] have "ssp U a"
      unfolding prover_polys_sem [OF polys len] .
    with ns show ?thesis by simp
  qed
next
  let ?t = "vanishing_poly (roots (nrows U)) :: 'a list"
  assume pre: "ncols U = length a
        \<and> int (length CRS) = (int (nrows U) + 1) + 2 + (int (ncols U) - int n_stmt)
        \<and> n_stmt \<le> ncols U \<and> distinct (roots (nrows U) :: 'a list)"
  then have len: "ncols U = length a"
    and crs: "int (length CRS) = (int (nrows U) + 1) + 2 + (int (ncols U) - int n_stmt)"
    and le: "n_stmt \<le> ncols U" and d: "distinct (roots (nrows U) :: 'a list)"
    by simp_all
  from prover_polys_success [OF d len le] obtain vw p h
    where polys: "prover_polys U n_stmt a = Inr (vw, p, h)" by blast
  from prover_polys_divmod [OF polys] obtain r where dm: "divmod_coeffs p ?t = (h, r)"
    and pd: "pdivmod p ?t = Inr (h, r)"
    and np: "no_trailing ((=) 0) p" by blast
  have iff: "r = [] \<longleftrightarrow> ssp U a"
    unfolding prover_polys_sem [OF polys len]
    using division_exact(2,3) [OF dm np] d by blast
  have eq: "p = pmul ?t h \<longleftrightarrow> ssp U a"
    using division_exact(1) [OF dm np] iff by simp
  note chk = prover_checked [OF len crs polys, of grp]
  have "(r \<noteq> [] \<longleftrightarrow> \<not> ssp U a)
      \<and> (\<not> ssp U a \<longrightarrow> babysnark_prover grp U n_stmt CRS a = Inl (AssertionError 173))
      \<and> (ssp U a \<longrightarrow> p = pmul ?t h
            \<and> babysnark_prover grp U n_stmt CRS a \<noteq> Inl (AssertionError 173))"
    using iff eq chk by blast
  with polys pd
  show "\<exists>vw p h r. prover_polys U n_stmt a = Inr (vw, p, h)
         \<and> pdivmod p ?t = Inr (h, r)
         \<and> (r \<noteq> [] \<longleftrightarrow> \<not> ssp U a)
         \<and> (\<not> ssp U a \<longrightarrow> babysnark_prover grp U n_stmt CRS a = Inl (AssertionError 173))
         \<and> (ssp U a \<longrightarrow> p = pmul ?t h
               \<and> babysnark_prover grp U n_stmt CRS a \<noteq> Inl (AssertionError 173))"
    by blast
qed

theorem prover_unsatisfied_constraint_witness:
  "\<not> ssp U_unit [1, 2]
   \<and> ssp U_unit [1, - 1]
   \<and> ncols U_unit = length [1, 2 :: rat]
   \<and> int (length [1, 5, 25, 7, 42, 24 :: rat])
       = (int (nrows U_unit) + 1) + 2 + (int (ncols U_unit) - int 1)
   \<and> 1 \<le> ncols U_unit \<and> distinct (roots (nrows U_unit) :: rat list)
   \<and> babysnark_prover scalar_group U_unit 1 [1, 5, 25, 7, 42, 24] [1, 2]
       = Inl (AssertionError 173)
   \<and> babysnark_prover scalar_group U_unit 1 [1, 5, 25, 7, 42, 24] [1, - 1]
       \<noteq> Inl (AssertionError 173)"
proof -
  have 1: "\<not> ssp U_unit [1, 2]" and 2: "ssp U_unit [1, - 1]"
    by code_simp+
  have 3: "ncols U_unit = length [1, 2 :: rat]" "ncols U_unit = length [1, - 1 :: rat]"
    "int (length [1, 5, 25, 7, 42, 24 :: rat])
       = (int (nrows U_unit) + 1) + 2 + (int (ncols U_unit) - int 1)"
    "1 \<le> ncols U_unit"
    by (simp_all add: U_unit_def)
  have 4: "distinct (roots (nrows U_unit) :: rat list)"
    by code_simp
  have "babysnark_prover scalar_group U_unit 1 [1, 5, 25, 7, 42, 24] [1, 2]
       = Inl (AssertionError 173)"
    using prover_unsatisfied_constraint [where U = U_unit and a = "[1, 2]" and n_stmt = 1
        and CRS = "[1, 5, 25, 7, 42, 24]" and grp = scalar_group] 1 3 4
    by blast
  moreover have "babysnark_prover scalar_group U_unit 1 [1, 5, 25, 7, 42, 24] [1, - 1]
       \<noteq> Inl (AssertionError 173)"
    using prover_unsatisfied_constraint [where U = U_unit and a = "[1, - 1]" and n_stmt = 1
        and CRS = "[1, 5, 25, 7, 42, 24]" and grp = scalar_group] 2 3 4
    by blast
  ultimately show ?thesis using 1 2 3 4 by blast
qed

section \<open>Sums of multiples of the generator\<close>

lemma pairing_laws_scalar_group: "pairing_laws (scalar_group :: ('a::field, 'a, 'a) pairing_group)"
  by (simp add: pairing_laws_def scalar_group_def algebra_simps)

lemma grp_sum_scalars:
  assumes "pairing_laws grp"
  shows "grp_sum grp (map (\<lambda>i. grp_mul grp (grp_mul grp (grp_G grp) (f i)) (c i)) idxs)
     = grp_mul grp (grp_G grp) (sum_list (map (\<lambda>i. f i * c i) idxs))"
proof -
  have "foldl (grp_add grp) (grp_mul grp (grp_G grp) s)
          (map (\<lambda>i. grp_mul grp (grp_mul grp (grp_G grp) (f i)) (c i)) idxs)
      = grp_mul grp (grp_G grp) (s + sum_list (map (\<lambda>i. f i * c i) idxs))" for s
  proof (induction idxs arbitrary: s)
    case Nil
    then show ?case by simp
  next
    case (Cons i idxs)
    have "grp_add grp (grp_mul grp (grp_G grp) s) (grp_mul grp (grp_mul grp (grp_G grp) (f i)) (c i))
        = grp_mul grp (grp_G grp) (s + f i * c i)"
      using assms by (simp add: pairing_laws_def)
    then show ?case using Cons.IH [of "s + f i * c i"] by (simp add: add.assoc)
  qed
  from this [of 0] show ?thesis by (simp add: grp_sum_def)
qed

lemma peval_sum: "peval p x = sum_list (map (\<lambda>i. x ^ i * p ! i) [0..<length p])"
proof (induction p)
  case Nil
  then show ?case by simp
next
  case (Cons c p)
  have "[0..<length (c # p)] = 0 # map Suc [0..<length p]"
    by (simp add: upt_conv_Cons map_Suc_upt del: upt_Suc)
  then have "sum_list (map (\<lambda>i. x ^ i * (c # p) ! i) [0..<length (c # p)])
      = c + sum_list (map (\<lambda>i. x * (x ^ i * p ! i)) [0..<length p])"
    by (simp add: comp_def algebra_simps)
  also have "\<dots> = c + x * sum_list (map (\<lambda>i. x ^ i * p ! i) [0..<length p])"
    by (simp add: sum_list_const_mult)
  finally show ?case using Cons.IH by simp
qed

section \<open>Lengths of products and of the quotient\<close>

lemma length_pmul_le: "length (pmul p q) \<le> length p + length q - 1"
proof (cases "p = [] \<or> q = []")
  case True
  have "length (pmul p q) \<le> 0"
  proof (rule normal_length_le)
    show "no_trailing ((=) 0) (pmul p q)" by (rule no_trailing_ops)
    show "coeff (pmul p q) i = 0" if "0 \<le> i" for i
      using True by (auto simp: pmul_def)
  qed
  then show ?thesis by simp
next
  case False
  then have "length (mul_coeffs p q) = length p + length q - 1"
    by (simp add: length_mul_coeffs)
  then show ?thesis
    unfolding pmul_def using length_Poly_le [of "mul_coeffs p q"] by simp
qed

lemma length_psub_le: "length (psub p q) \<le> max (length p) (length q)"
proof -
  have "length (pneg q) \<le> length q"
    unfolding pneg_def using length_Poly_le [of "map uminus q"] by simp
  then show ?thesis
    unfolding psub_def using length_padd_le [of p "pneg q"] by simp
qed

lemma prover_quotient_length:
  fixes U :: "'a :: field matrix"
  assumes polys: "prover_polys U n_stmt a = Inr (vw, p, h)"
    and div: "p = pmul (vanishing_poly (roots (nrows U))) h"
    and m: "0 < nrows U"
  shows "length h \<le> nrows U"
proof -
  let ?m = "nrows U"
  let ?t = "vanishing_poly (roots ?m) :: 'a list"
  from polys obtain Us v where Us: "column_polys U = Inr Us"
    and vw: "accumulate a Us [n_stmt..<ncols U] (Poly [0]) = Inr vw"
    and v: "accumulate a Us [0..<n_stmt] vw = Inr v"
    and p: "p = psub (pmul v v) (Poly [1])"
    by (rule prover_polys_Inr)
  have UsE: "Us = map (\<lambda>k. lagrange (roots ?m) (column U k)) [0..<ncols U]"
    using column_polys_distinct [OF Us] by simp
  have lU: "length (Us ! k) \<le> ?m" if "k < ncols U" for k
    using that length_lagrange [of "roots ?m :: 'a list" "column U k"] by (simp add: UsE)
  have lvw: "length vw \<le> ?m"
    by (rule length_accumulate [OF vw]) (use lU in auto)
  have n: "n_stmt \<le> ncols U"
  proof -
    from accumulate_Inr_bound [OF v] have "\<forall>k<n_stmt. k < length Us" by simp
    then have "n_stmt \<le> length Us" by (cases n_stmt) auto
    then show ?thesis by (simp add: UsE)
  qed
  have lv: "length v \<le> ?m"
    by (rule length_accumulate [OF v]) (use lU n lvw in auto)
  have "length (pmul v v) \<le> 2 * ?m - 1"
    using length_pmul_le [of v v] lv by simp
  then have lp: "length p \<le> 2 * ?m - 1"
    unfolding p using length_psub_le [of "pmul v v" "Poly [1]"] m by simp
  show ?thesis
  proof (cases "h = []")
    case True
    then show ?thesis by simp
  next
    case False
    from prover_polys_divmod [OF polys] obtain r where "divmod_coeffs p ?t = (h, r)"
      by blast
    moreover have t: "?t \<noteq> []" "last ?t \<noteq> 0" "length ?t = ?m + 1"
      using vanishing_poly_shape [of "roots ?m :: 'a list"] by simp_all
    ultimately have "no_trailing ((=) 0) h"
      using divmod_coeffs_contract [of ?t p h r] by simp
    with False have "last h \<noteq> 0" by (auto simp: no_trailing_unfold)
    from pmul_normal(2) [OF t(1) False t(2) this]
    have "length p = ?m + length h" using div t(3) by simp
    with lp show ?thesis by simp
  qed
qed

lemma crs_nth:
  assumes "length xs = m + 1"
  shows "i \<le> m \<Longrightarrow> (xs @ [g1, g2] @ ys) ! i = xs ! i"
    and "(xs @ [g1, g2] @ ys) ! (m + 1) = g1"
    and "(xs @ [g1, g2] @ ys) ! (m + 2) = g2"
    and "(xs @ [g1, g2] @ ys) ! (m + 3 + j) = ys ! j"
    and "take (m + 1) (xs @ [g1, g2] @ ys) = xs"
  using assms by (simp_all add: nth_append)

lemma grp_sum_weighted:
  assumes "pairing_laws grp"
  shows "grp_sum grp (map (\<lambda>i. grp_mul grp (grp_mul grp (grp_G grp) (x ^ i)) (c ! i)) [0..<length c])
     = grp_mul grp (grp_G grp) (peval c x)"
  using grp_sum_scalars [OF assms, of "\<lambda>i. x ^ i" "\<lambda>i. c ! i" "[0..<length c]"]
  by (simp add: peval_sum)

section \<open>The CRS that Setup returns\<close>

lemma interpolation_unique:
  fixes p q :: "'a :: field list"
  assumes "distinct xs" and "length p \<le> length xs" and "length q \<le> length xs"
    and "\<forall>x \<in> set xs. peval p x = peval q x"
  shows "peval p z = peval q z"
proof -
  let ?d = "add_coeffs p (map uminus q)"
  have "length ?d \<le> length xs" using assms(2,3) by simp
  moreover have "\<forall>x \<in> set xs. peval ?d x = 0" using assms(4) by simp
  ultimately have "\<forall>c \<in> set ?d. c = 0" using assms(1) by (intro roots_bound)
  then have "peval ?d z = 0" by (rule peval_zeros)
  then show ?thesis by simp
qed

lemma column_polys_interpolate:
  fixes U :: "'a :: field matrix"
  assumes "column_polys U = Inr Us" and "k < ncols U"
  shows "length Us = ncols U" and "length (Us ! k) \<le> nrows U"
    and "i < nrows U \<Longrightarrow> peval (Us ! k) (of_nat (1 + i)) = entry U i k"
proof -
  from column_polys_distinct [OF assms(1)] assms(2)
  have Us: "Us = map (\<lambda>k. lagrange (roots (nrows U)) (column U k)) [0..<ncols U]"
    and d: "distinct (roots (nrows U) :: 'a list)" by simp_all
  show "length Us = ncols U" by (simp add: Us)
  have k: "Us ! k = lagrange (roots (nrows U)) (column U k)"
    using assms(2) by (simp add: Us)
  show "length (Us ! k) \<le> nrows U"
    unfolding k using length_lagrange [of "roots (nrows U) :: 'a list" "column U k"] by simp
  show "peval (Us ! k) (of_nat (1 + i)) = entry U i k" if "i < nrows U"
  proof -
    have "peval (lagrange (roots (nrows U)) (column U k)) (roots (nrows U) ! i) = column U k ! i"
    proof (rule peval_lagrange [OF d])
      show "length (column U k) = length (roots (nrows U) :: 'a list)" by simp
      show "i < length (roots (nrows U) :: 'a list)" using that by simp
    qed
    then show ?thesis using that unfolding k by (simp add: roots_nth column_nth)
  qed
qed

text \<open>
  C7. When \<open>n_stmt < n\<close> and the evaluation points \<open>1, \<dots>, m\<close> are distinct in the field,
  \<^verbatim>\<open>babysnark_setup\<close> returns a CRS of \<open>(m + 1) + 2 + (n - n_stmt)\<close> elements: the powers
  \<open>tau^i G\<close> for \<open>i = 0, \<dots>, m\<close>, then \<open>gamma G\<close>, then \<open>(beta gamma) G\<close>, then
  \<open>(beta U\<^sub>k(tau)) G\<close> for the columns \<open>k = n_stmt, \<dots>, n - 1\<close>, where \<open>tau\<close>, \<open>beta\<close>, \<open>gamma\<close> are
  the next three draws of the random generator and \<open>U\<^sub>k\<close> is the polynomial of column \<open>k\<close>
  that line 128 computes: it has at most \<open>m\<close> coefficients and takes the value \<open>U[i, k]\<close> at
  the point \<open>1 + i\<close> for every row \<open>i\<close>, and its value at any point is the value of every
  polynomial with these two properties. For \<open>m = 10\<close>, \<open>n = 6\<close>, \<open>n_stmt = 4\<close> the CRS has 15
  elements.
\<close>

theorem setup_crs_shape:
  fixes U :: "'a :: field matrix"
  assumes "n_stmt < ncols U" and "distinct (roots (nrows U) :: 'a list)"
  shows "\<exists>CRS s' Us. babysnark_setup s grp U n_stmt = (Inr CRS, s')
     \<and> column_polys U = Inr Us \<and> length Us = ncols U
     \<and> (\<forall>k < ncols U. length (Us ! k) \<le> nrows U
           \<and> (\<forall>i < nrows U. peval (Us ! k) (of_nat (1 + i)) = entry U i k)
           \<and> (\<forall>q z. length q \<le> nrows U
                  \<and> (\<forall>i < nrows U. peval q (of_nat (1 + i)) = entry U i k)
                \<longrightarrow> peval (Us ! k) z = peval q z))
     \<and> length CRS = (nrows U + 1) + 2 + (ncols U - n_stmt)
     \<and> CRS = map (\<lambda>i. grp_mul grp (grp_G grp) (rand_draws s (rand_drawn s) ^ i)) [0..<nrows U + 1]
            @ [grp_mul grp (grp_G grp) (rand_draws s (rand_drawn s + 2)),
               grp_mul grp (grp_G grp)
                 (rand_draws s (rand_drawn s + 1) * rand_draws s (rand_drawn s + 2))]
            @ map (\<lambda>k. grp_mul grp (grp_G grp)
                     (rand_draws s (rand_drawn s + 1) * peval (Us ! k) (rand_draws s (rand_drawn s))))
                [n_stmt..<ncols U]"
proof -
  let ?Us = "map (\<lambda>k. lagrange (roots (nrows U)) (column U k)) [0..<ncols U]"
  have Us: "column_polys U = Inr ?Us"
    using assms(2) by (rule column_polys_Inr)
  have d: "drop n_stmt ?Us = map (\<lambda>k. ?Us ! k) [n_stmt..<ncols U]"
    by (simp add: drop_map)
  have pin: "length (?Us ! k) \<le> nrows U
           \<and> (\<forall>i < nrows U. peval (?Us ! k) (of_nat (1 + i)) = entry U i k)
           \<and> (\<forall>q z. length q \<le> nrows U
                  \<and> (\<forall>i < nrows U. peval q (of_nat (1 + i)) = entry U i k)
                \<longrightarrow> peval (?Us ! k) z = peval q z)" if k: "k < ncols U" for k
  proof (intro conjI allI impI)
    show l: "length (?Us ! k) \<le> nrows U"
      using Us k by (rule column_polys_interpolate(2))
    show v: "peval (?Us ! k) (of_nat (1 + i)) = entry U i k" if "i < nrows U" for i
      using Us k that by (rule column_polys_interpolate(3))
    show "peval (?Us ! k) z = peval q z"
      if q: "length q \<le> nrows U \<and> (\<forall>i < nrows U. peval q (of_nat (1 + i)) = entry U i k)"
      for q z
    proof (rule interpolation_unique [OF assms(2)])
      show "length (?Us ! k) \<le> length (roots (nrows U) :: 'a list)" using l by simp
      show "length q \<le> length (roots (nrows U) :: 'a list)" using q by simp
      show "\<forall>x \<in> set (roots (nrows U)). peval (?Us ! k) x = peval q x"
        unfolding all_set_conv_all_nth using q v by (simp add: roots_nth)
    qed
  qed
  have "babysnark_setup s grp U n_stmt
      = (Inr (map (\<lambda>i. grp_mul grp (grp_G grp) (rand_draws s (rand_drawn s) ^ i)) [0..<nrows U + 1]
            @ [grp_mul grp (grp_G grp) (rand_draws s (rand_drawn s + 2)),
               grp_mul grp (grp_G grp)
                 (rand_draws s (rand_drawn s + 1) * rand_draws s (rand_drawn s + 2))]
            @ map (\<lambda>k. grp_mul grp (grp_G grp)
                     (rand_draws s (rand_drawn s + 1) * peval (?Us ! k) (rand_draws s (rand_drawn s))))
                [n_stmt..<ncols U]),
         s\<lparr>rand_drawn := rand_drawn s + 3,
           g_tau := Some (rand_draws s (rand_drawn s)),
           g_beta := Some (rand_draws s (rand_drawn s + 1)),
           g_gamma := Some (rand_draws s (rand_drawn s + 2))\<rparr>)"
    unfolding setup_success [OF assms(1) Us] d by (simp add: comp_def)
  moreover have "length ?Us = ncols U" by simp
  moreover have "length (map (\<lambda>i. grp_mul grp (grp_G grp) (rand_draws s (rand_drawn s) ^ i)) [0..<nrows U + 1]
            @ [grp_mul grp (grp_G grp) (rand_draws s (rand_drawn s + 2)),
               grp_mul grp (grp_G grp)
                 (rand_draws s (rand_drawn s + 1) * rand_draws s (rand_drawn s + 2))]
            @ map (\<lambda>k. grp_mul grp (grp_G grp)
                     (rand_draws s (rand_drawn s + 1) * peval (?Us ! k) (rand_draws s (rand_drawn s))))
                [n_stmt..<ncols U]) = (nrows U + 1) + 2 + (ncols U - n_stmt)"
    by simp
  ultimately show ?thesis using Us pin by blast
qed

theorem setup_crs_shape_witness:
  "1 < ncols U_unit \<and> distinct (roots (nrows U_unit) :: rat list)
   \<and> column_polys U_unit = Inr [[2, - 1], [- 1, 1]]
   \<and> peval [- 1, 1 :: rat] (of_nat (1 + 0)) = entry U_unit 0 1
   \<and> peval [- 1, 1 :: rat] (of_nat (1 + 1)) = entry U_unit 1 1
   \<and> (\<exists>s'. babysnark_setup globals0 scalar_group U_unit 1 = (Inr [1, 5, 25, 7, 42, 24], s'))
   \<and> grp_mul scalar_group (grp_G scalar_group) (6 * peval [- 1, 1] 5) = (24 :: rat)
   \<and> 4 < ncols U_ten \<and> distinct (roots (nrows U_ten) :: rat list)
   \<and> (\<exists>CRS s'. babysnark_setup globals0 scalar_group U_ten 4 = (Inr CRS, s') \<and> length CRS = 15)"
proof -
  have 1: "1 < ncols U_unit" by (simp add: U_unit_def)
  have 2: "distinct (roots (nrows U_unit) :: rat list)"
    by code_simp
  have 3: "column_polys U_unit = Inr [[2, - 1], [- 1, 1]]"
    by code_simp
  have 4: "fst (babysnark_setup globals0 scalar_group U_unit 1) = Inr [1, 5, 25, 7, 42, 24]"
    by code_simp
  have 5: "grp_mul scalar_group (grp_G scalar_group) (6 * peval [- 1, 1] 5) = (24 :: rat)"
    by code_simp
  from setup_crs_shape [OF 1 2, where s = globals0 and grp = scalar_group]
  obtain CRS s' Us where s: "babysnark_setup globals0 scalar_group U_unit 1 = (Inr CRS, s')"
    and Us: "column_polys U_unit = Inr Us"
    and v: "\<forall>k < ncols U_unit. \<forall>i < nrows U_unit. peval (Us ! k) (of_nat (1 + i)) = entry U_unit i k"
    by blast
  from s 4 have "CRS = [1, 5, 25, 7, 42, 24]" by simp
  with s have a: "\<exists>s'. babysnark_setup globals0 scalar_group U_unit 1
      = (Inr [1, 5, 25, 7, 42, 24], s')" by blast
  from Us 3 have "Us = [[2, - 1], [- 1, 1]]" by simp
  then have "Us ! 1 = [- 1, 1]" by simp
  with v have b: "peval [- 1, 1 :: rat] (of_nat (1 + 0)) = entry U_unit 0 1"
    "peval [- 1, 1 :: rat] (of_nat (1 + 1)) = entry U_unit 1 1"
    by (auto simp: U_unit_def)
  have 6: "4 < ncols U_ten" by (simp add: U_ten_def)
  have 7: "distinct (roots (nrows U_ten) :: rat list)"
    by code_simp
  from setup_crs_shape [OF 6 7, where s = globals0 and grp = scalar_group]
  obtain CRS' s'' where "babysnark_setup globals0 scalar_group U_ten 4 = (Inr CRS', s'')"
    "length CRS' = nrows U_ten + 1 + 2 + (ncols U_ten - 4)" by blast
  then have c: "\<exists>CRS s'. babysnark_setup globals0 scalar_group U_ten 4 = (Inr CRS, s')
      \<and> length CRS = 15"
    by (simp add: U_ten_def)
  from 1 2 3 b a 5 6 7 c show ?thesis by blast
qed

section \<open>The degree check of the prover\<close>

text \<open>
  The bounds hold whenever the earlier assertions have passed: \<open>vw\<close> has at most \<open>m\<close>
  coefficients, and for \<open>m > 0\<close> the quotient \<open>h\<close> has at most \<open>m\<close>. The assertion of line
  174 nevertheless fails whenever \<open>vw\<close> has fewer than \<open>m\<close> coefficients, and only then.
\<close>

lemma prover_degree_bounds:
  fixes U :: "'a :: field matrix"
  assumes len: "ncols U = length a"
    and crs: "int (length CRS) = (int (nrows U) + 1) + 2 + (int (ncols U) - int n_stmt)"
    and polys: "prover_polys U n_stmt a = Inr (vw, p, h)"
    and div: "p = pmul (vanishing_poly (roots (nrows U))) h"
    and m: "0 < nrows U"
  shows "length vw \<le> nrows U" and "length h \<le> nrows U"
    and "babysnark_prover grp U n_stmt CRS a = Inl (AssertionError 174) \<longleftrightarrow> length vw < nrows U"
    and "length vw = nrows U \<Longrightarrow> \<exists>res. babysnark_prover grp U n_stmt CRS a = Inr res"
proof -
  from polys obtain Us v where Us: "column_polys U = Inr Us"
    and vw: "accumulate a Us [n_stmt..<ncols U] (Poly [0]) = Inr vw"
    by (rule prover_polys_Inr)
  show lvw: "length vw \<le> nrows U"
    by (rule length_accumulate [OF vw]) (use column_polys_interpolate(2) [OF Us] in auto)
  show lh: "length h \<le> nrows U"
    using polys div m by (rule prover_quotient_length)
  show ok: "\<exists>res. babysnark_prover grp U n_stmt CRS a = Inr res" if "length vw = nrows U"
    using prover_after_checks [OF len crs polys div that lh, of grp] by simp
  show "babysnark_prover grp U n_stmt CRS a = Inl (AssertionError 174) \<longleftrightarrow> length vw < nrows U"
  proof (cases "length vw = nrows U")
    case True
    with ok show ?thesis by auto
  next
    case False
    then have "babysnark_prover grp U n_stmt CRS a = Inl (AssertionError 174)"
      using len crs polys div by (simp add: babysnark_prover_def Let_def)
    with False lvw show ?thesis by simp
  qed
qed

text \<open>
  C6. The claim does not hold of the code: line 174 asserts
  \<^verbatim>\<open>len(vw.coefficients) == m\<close>, so the check fails on valid instances whose \<open>vw\<close> has degree
  below \<open>m - 1\<close>. For the two-by-two matrix of ones with witness \<open>(0, 1)\<close> and \<open>n_stmt = 1\<close>
  the constraint holds, Setup returns a CRS, \<open>p\<close> is divided by \<open>t\<close> without remainder
  (line 173 passes), \<open>vw = 1\<close> has one coefficient and \<open>h = 0\<close> none, both within the
  bounds for \<open>m = 2\<close>, and the prover raises at line 174. The same happens for the
  one-row matrix \<open>(1 0)\<close> with witness \<open>(1, 0)\<close>, where \<open>vw\<close> is the zero polynomial.
\<close>

theorem prover_degree_check_rejects_valid:
  "ssp U_ones [0, 1] \<and> 1 < ncols U_ones
   \<and> fst (babysnark_setup (globals0\<lparr>g_a := [0, 1]\<rparr>) scalar_group U_ones 1)
       = Inr [1, 5, 25, 7, 42, 6]
   \<and> prover_polys U_ones 1 [0, 1] = Inr ([1], [], [])
   \<and> pdivmod [] (vanishing_poly (roots (nrows U_ones))) = Inr ([], [] :: rat list)
   \<and> length [1 :: rat] \<le> nrows U_ones \<and> length ([] :: rat list) \<le> nrows U_ones
   \<and> babysnark_prover scalar_group U_ones 1 [1, 5, 25, 7, 42, 6] [0, 1]
       = Inl (AssertionError 174)
   \<and> ssp U_short [1, 0] \<and> 1 < ncols U_short
   \<and> fst (babysnark_setup (globals0\<lparr>g_a := [1, 0]\<rparr>) scalar_group U_short 1)
       = Inr [1, 5, 7, 42, 0]
   \<and> prover_polys U_short 1 [1, 0] = Inr ([], [], [])
   \<and> length ([] :: rat list) \<le> nrows U_short
   \<and> babysnark_prover scalar_group U_short 1 [1, 5, 7, 42, 0] [1, 0]
       = Inl (AssertionError 174)"
  by code_simp

section \<open>Setup, then the prover, then the verifier\<close>

text \<open>
  Where the two assertions on the number of coefficients do not interfere, the three
  functions in sequence accept: for a group with the laws \<open>pairing_laws\<close>, an instance with
  \<open>(U a)\<^sup>2 = 1\<close>, \<open>n_stmt < n\<close>, \<open>len(a) = n\<close> and \<open>m > 0\<close>, the module-level \<^verbatim>\<open>a\<close> and
  \<^verbatim>\<open>n_stmt\<close> being the witness and the split, and both the witness polynomial \<open>vw\<close> and the
  statement polynomial \<open>vs\<close> having exactly \<open>m\<close> coefficients, Setup returns a CRS, the
  prover returns a proof from it and the verifier returns \<open>True\<close> on that proof.
\<close>

lemma completeness_full_degree:
  fixes U :: "'a::field matrix" and grp :: "('a, 'g, 't) pairing_group"
  assumes laws: "pairing_laws grp"
    and sat: "ssp U a"
    and split: "n_stmt < ncols U"
    and len: "ncols U = length a"
    and m: "0 < nrows U"
    and Us: "column_polys U = Inr Us"
    and vw: "accumulate a Us [n_stmt..<ncols U] (Poly [0]) = Inr vw"
    and lvw: "length vw = nrows U"
    and vs: "accumulate a Us [0..<n_stmt] (Poly [0]) = Inr vs"
    and lvs: "length vs = nrows U"
    and ga: "g_a s = a" and gn: "g_n_stmt s = n_stmt"
  shows "\<exists>CRS s' res. babysnark_setup s grp U n_stmt = (Inr CRS, s')
     \<and> babysnark_prover grp U n_stmt CRS a = Inr res
     \<and> babysnark_verifier s' grp U CRS (take n_stmt a) res = Inr True"
proof -
  let ?m = "nrows U" and ?n = "ncols U"
  let ?G = "grp_G grp"
  let ?tau = "rand_draws s (rand_drawn s)"
  let ?beta = "rand_draws s (rand_drawn s + 1)"
  let ?gamma = "rand_draws s (rand_drawn s + 2)"
  let ?t = "vanishing_poly (roots ?m) :: 'a list"
  from laws have L_add: "\<And>x y. grp_add grp (grp_mul grp ?G x) (grp_mul grp ?G y)
        = grp_mul grp ?G (x + y)"
    and L_pair: "\<And>x y. grp_pair grp (grp_mul grp ?G x) (grp_mul grp ?G y)
        = grp_pair grp ?G (grp_mul grp ?G (x * y))"
    and L_gt: "\<And>x y. gt_mul grp (grp_pair grp ?G (grp_mul grp ?G x))
          (grp_pair grp ?G (grp_mul grp ?G y)) = grp_pair grp ?G (grp_mul grp ?G (x + y))"
    and L_GT: "grp_GT grp = grp_pair grp ?G (grp_mul grp ?G 1)"
    unfolding pairing_laws_def by blast+
  define pows where "pows = map (\<lambda>i. grp_mul grp ?G (?tau ^ i)) [0..<?m + 1]"
  define bU where "bU = map (\<lambda>Ui. grp_mul grp ?G (?beta * peval Ui ?tau)) (drop n_stmt Us)"
  define CRS where
    "CRS = pows @ [grp_mul grp ?G ?gamma, grp_mul grp ?G (?beta * ?gamma)] @ bU"
  define s' where "s' = s\<lparr>rand_drawn := rand_drawn s + 3, g_tau := Some ?tau,
     g_beta := Some ?beta, g_gamma := Some ?gamma\<rparr>"
  have stp: "babysnark_setup s grp U n_stmt = (Inr CRS, s')"
    unfolding CRS_def pows_def bU_def s'_def by (rule setup_success [OF split Us])
  have lUs: "length Us = ?n" using column_polys_distinct [OF Us] by simp
  have d: "distinct (roots ?m :: 'a list)"
    using column_polys_distinct [OF Us] split by simp
  have lp: "length pows = ?m + 1" by (simp add: pows_def)
  have lb: "length bU = ?n - n_stmt" by (simp add: bU_def lUs)
  have lcn: "length CRS = ?m + 3 + (?n - n_stmt)" by (simp add: CRS_def lp lb)
  have lc: "int (length CRS) = (int ?m + 1) + 2 + (int ?n - int n_stmt)"
    using split by (simp add: lcn)
  have pow_nth: "pows ! i = grp_mul grp ?G (?tau ^ i)" if "i \<le> ?m" for i
    using that by (simp add: pows_def less_Suc_eq_le del: upt_Suc)
  have nth_pow: "CRS ! i = grp_mul grp ?G (?tau ^ i)" if "i \<le> ?m" for i
  proof -
    have "CRS ! i = pows ! i" unfolding CRS_def using lp that by (rule crs_nth(1))
    then show ?thesis using pow_nth [OF that] by simp
  qed
  have nth_g: "CRS ! (?m + 1) = grp_mul grp ?G ?gamma"
    unfolding CRS_def using lp by (rule crs_nth(2))
  have nth_gb: "CRS ! (?m + 2) = grp_mul grp ?G (?beta * ?gamma)"
    unfolding CRS_def using lp by (rule crs_nth(3))
  have nth_b: "CRS ! (?m + 3 + (k - n_stmt)) = grp_mul grp ?G (?beta * peval (Us ! k) ?tau)"
    if "n_stmt \<le> k" "k < ?n" for k
  proof -
    have "CRS ! (?m + 3 + (k - n_stmt)) = bU ! (k - n_stmt)"
      unfolding CRS_def using lp by (rule crs_nth(4))
    also have "\<dots> = grp_mul grp ?G (?beta * peval (Us ! k) ?tau)"
    proof -
      have "n_stmt \<le> length Us" "k - n_stmt < length (drop n_stmt Us)"
        using that by (simp_all add: lUs)
      moreover have "drop n_stmt Us ! (k - n_stmt) = Us ! (n_stmt + (k - n_stmt))"
        using \<open>n_stmt \<le> length Us\<close> by (rule nth_drop)
      ultimately show ?thesis using that by (simp add: bU_def)
    qed
    finally show ?thesis .
  qed
  have tk: "take (?m + 1) CRS = pows"
    unfolding CRS_def using lp by (rule crs_nth(5))

  have le: "n_stmt \<le> ?n" using split by simp
  from prover_polys_success [OF d len le]
  obtain vw' p h where polys': "prover_polys U n_stmt a = Inr (vw', p, h)" by blast
  from polys' obtain Us' v where Us': "column_polys U = Inr Us'"
    and vw': "accumulate a Us' [n_stmt..<?n] (Poly [0]) = Inr vw'"
    and v': "accumulate a Us' [0..<n_stmt] vw' = Inr v"
    and p: "p = psub (pmul v v) (Poly [1])"
    by (rule prover_polys_Inr)
  have e1: "Us' = Us" using Us Us' by simp
  have e2: "vw' = vw" using vw vw' unfolding e1 by simp
  have polys: "prover_polys U n_stmt a = Inr (vw, p, h)" using polys' unfolding e2 .
  have v: "accumulate a Us [0..<n_stmt] vw = Inr v" using v' unfolding e1 e2 .
  have zero: "\<forall>x \<in> set (roots ?m). peval p x = 0"
    using prover_polys_sem [OF polys len] sat by simp
  obtain r where dm: "divmod_coeffs p ?t = (h, r)" and np: "no_trailing ((=) 0) p"
    using prover_polys_divmod [OF polys] by blast
  have "r = []" using dm np d zero by (rule division_exact(3))
  then have div: "p = pmul ?t h" using division_exact(1) [OF dm np] by simp
  have lh: "length h \<le> ?m" using polys div m by (rule prover_quotient_length)
  define H where "H = grp_sum grp (map (\<lambda>i. grp_mul grp (CRS ! i) (h ! i)) [0..<length h])"
  define Bw where "Bw = grp_sum grp
     (map (\<lambda>k. grp_mul grp (CRS ! (?m + 3 + (k - n_stmt))) (a ! k)) [n_stmt..<?n])"
  define Vw where "Vw = grp_sum grp (map (\<lambda>i. grp_mul grp (CRS ! i) (vw ! i)) [0..<?m])"
  have prover: "babysnark_prover grp U n_stmt CRS a = Inr (H, Bw, Vw)"
    unfolding H_def Bw_def Vw_def using len lc polys div lvw lh by (rule prover_after_checks)

  have H: "H = grp_mul grp ?G (peval h ?tau)"
  proof -
    have "map (\<lambda>i. grp_mul grp (CRS ! i) (h ! i)) [0..<length h]
        = map (\<lambda>i. grp_mul grp (grp_mul grp ?G (?tau ^ i)) (h ! i)) [0..<length h]"
      using lh by (simp add: nth_pow)
    then show ?thesis unfolding H_def by (simp only: grp_sum_weighted [OF laws])
  qed
  have Vw: "Vw = grp_mul grp ?G (peval vw ?tau)"
  proof -
    have "map (\<lambda>i. grp_mul grp (CRS ! i) (vw ! i)) [0..<?m]
        = map (\<lambda>i. grp_mul grp (grp_mul grp ?G (?tau ^ i)) (vw ! i)) [0..<length vw]"
      by (simp add: nth_pow lvw)
    then show ?thesis unfolding Vw_def by (simp only: grp_sum_weighted [OF laws])
  qed
  have Bw: "Bw = grp_mul grp ?G (?beta * peval vw ?tau)"
  proof -
    have "map (\<lambda>k. grp_mul grp (CRS ! (?m + 3 + (k - n_stmt))) (a ! k)) [n_stmt..<?n]
        = map (\<lambda>k. grp_mul grp (grp_mul grp ?G (?beta * peval (Us ! k) ?tau)) (a ! k))
            [n_stmt..<?n]"
    proof (rule map_cong [OF refl])
      fix k assume "k \<in> set [n_stmt..<?n]"
      then have "n_stmt \<le> k" "k < ?n" by simp_all
      then show "grp_mul grp (CRS ! (?m + 3 + (k - n_stmt))) (a ! k)
          = grp_mul grp (grp_mul grp ?G (?beta * peval (Us ! k) ?tau)) (a ! k)"
        by (simp only: nth_b)
    qed
    then have "Bw = grp_mul grp ?G
        (sum_list (map (\<lambda>k. ?beta * peval (Us ! k) ?tau * a ! k) [n_stmt..<?n]))"
      unfolding Bw_def
      by (simp only: grp_sum_scalars [OF laws, of "\<lambda>k. ?beta * peval (Us ! k) ?tau"
          "\<lambda>k. a ! k" "[n_stmt..<?n]"])
    moreover have "sum_list (map (\<lambda>k. ?beta * peval (Us ! k) ?tau * a ! k) [n_stmt..<?n])
        = ?beta * peval vw ?tau"
    proof -
      have "sum_list (map (\<lambda>k. ?beta * peval (Us ! k) ?tau * a ! k) [n_stmt..<?n])
          = sum_list (map (\<lambda>k. ?beta * (a ! k * peval (Us ! k) ?tau)) [n_stmt..<?n])"
        by (simp add: mult_ac)
      also have "\<dots> = ?beta * sum_list (map (\<lambda>k. a ! k * peval (Us ! k) ?tau) [n_stmt..<?n])"
        by (rule sum_list_const_mult)
      also have "\<dots> = ?beta * peval vw ?tau"
        using peval_accumulate [OF vw, of ?tau] by simp
      finally show ?thesis .
    qed
    ultimately show ?thesis by simp
  qed

  have s'a: "g_a s' = a" "g_n_stmt s' = n_stmt" by (simp_all add: s'_def ga gn)
  have lt: "length ?t = ?m + 1"
    using vanishing_poly_shape [of "roots ?m :: 'a list"] by simp
  define Ts where "Ts = map (\<lambda>i. grp_mul grp (pows ! i) (?t ! i)) [0..<?m + 1]"
  define Vss where "Vss = map (\<lambda>i. grp_mul grp (pows ! i) (vs ! i)) [0..<?m]"
  have wt: "weighted grp pows ?t [0..<?m + 1] = Inr Ts"
    unfolding Ts_def by (rule weighted_Inr) (simp add: lp lt)
  have wvs: "weighted grp pows vs [0..<?m] = Inr Vss"
    unfolding Vss_def by (rule weighted_Inr) (simp add: lp lvs)
  have g1: "get CRS (?m + 1) = Inr (grp_mul grp ?G ?gamma)"
    using nth_g by (simp add: get_def lcn)
  have g2: "get CRS (?m + 2) = Inr (grp_mul grp ?G (?beta * ?gamma))"
    using nth_gb by (simp add: get_def lcn)
  have vs': "accumulate (g_a s') Us [0..<g_n_stmt s'] (Poly [0]) = Inr vs"
    unfolding s'a by (rule vs)
  have vt: "verifier_terms s' grp U CRS
      = Inr (grp_mul grp ?G ?gamma, grp_mul grp ?G (?beta * ?gamma), grp_sum grp Ts,
             grp_sum grp Vss)"
    unfolding verifier_terms_def Let_def g1 g2 tk wt Us using vs' wvs by simp
  have T: "grp_sum grp Ts = grp_mul grp ?G (peval ?t ?tau)"
  proof -
    have "Ts = map (\<lambda>i. grp_mul grp (grp_mul grp ?G (?tau ^ i)) (?t ! i)) [0..<length ?t]"
      unfolding Ts_def lt by (rule map_cong) (simp_all add: pow_nth del: upt_Suc)
    then show ?thesis by (simp only: grp_sum_weighted [OF laws])
  qed
  have Vs: "grp_sum grp Vss = grp_mul grp ?G (peval vs ?tau)"
  proof -
    have "Vss = map (\<lambda>i. grp_mul grp (grp_mul grp ?G (?tau ^ i)) (vs ! i)) [0..<length vs]"
      unfolding Vss_def lvs by (rule map_cong) (simp_all add: pow_nth)
    then show ?thesis by (simp only: grp_sum_weighted [OF laws])
  qed
  have pv: "peval v ?tau = peval vw ?tau + peval vs ?tau"
    using peval_accumulate [OF v, of ?tau] peval_accumulate [OF vs, of ?tau] by simp
  have id: "peval h ?tau * peval ?t ?tau + 1
      = (peval vs ?tau + peval vw ?tau) * (peval vs ?tau + peval vw ?tau)"
  proof -
    have "peval p ?tau = peval (pmul ?t h) ?tau" using div by simp
    then have "peval p ?tau = peval ?t ?tau * peval h ?tau" by simp
    moreover have "peval p ?tau = peval v ?tau * peval v ?tau - 1" by (simp add: p)
    ultimately show ?thesis by (simp add: pv algebra_simps)
  qed
  have c1: "grp_pair grp Bw (grp_mul grp ?G ?gamma)
      = grp_pair grp Vw (grp_mul grp ?G (?beta * ?gamma))"
    unfolding Bw Vw L_pair by (simp add: mult_ac)
  have c2: "gt_mul grp (grp_pair grp H (grp_sum grp Ts)) (grp_GT grp)
      = grp_pair grp (grp_add grp (grp_sum grp Vss) Vw) (grp_add grp (grp_sum grp Vss) Vw)"
    unfolding H T Vs Vw L_add L_pair L_GT L_gt id ..
  have "babysnark_verifier s' grp U CRS (take n_stmt a) (H, Bw, Vw) = Inr True"
    unfolding babysnark_verifier_def using c1 c2 by (simp add: vt Let_def)
  with stp prover show ?thesis by blast
qed

lemma completeness_full_degree_example:
  "\<exists>CRS s' res. babysnark_setup globals0 scalar_group U_unit 1 = (Inr CRS, s')
     \<and> babysnark_prover scalar_group U_unit 1 CRS [1, - 1] = Inr res
     \<and> babysnark_verifier s' scalar_group U_unit CRS [1] res = Inr True"
proof -
  have 1: "ssp U_unit [1, - 1]" by code_simp
  have 2: "1 < ncols U_unit" "ncols U_unit = length [1, - 1 :: rat]" "0 < nrows U_unit"
    by (simp_all add: U_unit_def)
  have 3: "column_polys U_unit = Inr [[2, - 1], [- 1, 1]]" by code_simp
  have 4: "accumulate [1, - 1] [[2, - 1], [- 1, 1]] [1..<ncols U_unit] (Poly [0])
      = Inr [1, - 1 :: rat]" by code_simp
  have 5: "accumulate [1, - 1] [[2, - 1], [- 1, 1]] [0..<1] (Poly [0]) = Inr [2, - 1 :: rat]"
    by code_simp
  have 6: "length [1, - 1 :: rat] = nrows U_unit" "length [2, - 1 :: rat] = nrows U_unit"
    by (simp_all add: U_unit_def)
  have 7: "g_a globals0 = [1, - 1]" "g_n_stmt globals0 = 1" by (simp_all add: globals0_def)
  from completeness_full_degree [OF pairing_laws_scalar_group 1 2 3 4 6(1) 5 6(2) 7]
  show ?thesis by simp
qed

text \<open>
  C1. The claim does not hold of the code. For the two-by-two matrix of ones, the witness
  \<open>(0, 1)\<close> and \<open>n_stmt = 1\<close> the constraint holds and Setup returns a CRS, but the prover
  raises at line 174, because \<open>vw\<close> has one coefficient and not two; no proof reaches the
  verifier. For the identity matrix, the witness \<open>(1, -1)\<close> and \<open>n_stmt = 0\<close> the prover
  returns a proof and the verifier raises \<^verbatim>\<open>IndexError\<close> at line 221, because the statement
  polynomial has no coefficient.
\<close>

theorem completeness_fails_example:
  "ssp U_ones [0, 1] \<and> 1 < ncols U_ones
   \<and> fst (babysnark_setup (globals0\<lparr>g_a := [0, 1]\<rparr>) scalar_group U_ones 1)
       = Inr [1, 5, 25, 7, 42, 6]
   \<and> babysnark_prover scalar_group U_ones 1 [1, 5, 25, 7, 42, 6] [0, 1]
       = Inl (AssertionError 174)
   \<and> ssp U_unit [1, - 1] \<and> 0 < ncols U_unit
   \<and> fst (babysnark_setup (globals0\<lparr>g_n_stmt := 0\<rparr>) scalar_group U_unit 0)
       = Inr [1, 5, 25, 7, 42, - 18, 24]
   \<and> babysnark_prover scalar_group U_unit 0 [1, 5, 25, 7, 42, - 18, 24] [1, - 1]
       = Inr (4, - 42, - 7)
   \<and> babysnark_verifier (snd (babysnark_setup (globals0\<lparr>g_n_stmt := 0\<rparr>) scalar_group U_unit 0))
        scalar_group U_unit [1, 5, 25, 7, 42, - 18, 24] (take 0 [1, - 1]) (4, - 42, - 7)
       = Inl IndexError"
  by code_simp

end
